theory Spec2Isabelle
  imports Complex_Main "HOL-Library.Log_Nat" "HOL-Library.Multiset" "HOL-Library.Sublist"
begin

section \<open>DiceOdds: the sum distribution of a set of dice\<close>

text \<open>
  A shallow embedding of \<^verbatim>\<open>DiceOddsLib/DiceOdds.py\<close>. Python integers are \<open>int\<close>,
  strings are \<open>string\<close>, tuples of face values are \<open>int list\<close>, an exception is the
  \<open>Inl\<close> branch of a sum, and printing appends to a list of output items.
\<close>

subsection \<open>Exceptions\<close>

datatype error =
    ValueError string
  | ZeroDivisionError
  | OverflowError
  | IndexError

subsection \<open>Python floats: IEEE binary64, round to nearest, ties to even\<close>

text \<open>
  A finite double is represented by the rational number it denotes. Every operation
  computes the exact rational result and rounds it to 53 significant bits (or to a
  multiple of \<open>2 ^ -1074\<close> in the subnormal range); a result beyond the largest finite
  double is an infinity. The sign of a zero is not represented: no operation used here
  depends on it.
\<close>

datatype pyfloat = Finite rat | Infinity bool | NaN

definition round_half_even :: "rat \<Rightarrow> int" where
  "round_half_even x =
     (let f = \<lfloor>x\<rfloor>; d = x - of_int f
      in if d < 1 / 2 then f
         else if 1 / 2 < d then f + 1
         else if even f then f else f + 1)"

definition pow2 :: "int \<Rightarrow> rat" where
  "pow2 e = (if 0 \<le> e then 2 ^ nat e else 1 / 2 ^ nat (- e))"

definition floor_log2 :: "rat \<Rightarrow> int" where
  \<comment> \<open>for \<open>0 < x\<close>: the \<open>e\<close> with \<open>2 ^ e \<le> x < 2 ^ (e + 1)\<close>\<close>
  "floor_log2 x =
     (let d = bitlen (fst (quotient_of x)) - bitlen (snd (quotient_of x))
      in if pow2 d \<le> x then d else d - 1)"

definition quantum :: "rat \<Rightarrow> int" where
  \<comment> \<open>the exponent of the unit in the last place of the doubles around \<open>x\<close>\<close>
  "quantum x = max (floor_log2 \<bar>x\<bar> - 52) (- 1074)"

definition round_double :: "rat \<Rightarrow> rat" where
  "round_double x =
     (if x = 0 then 0
      else of_int (round_half_even (x / pow2 (quantum x))) * pow2 (quantum x))"

definition max_double :: rat where
  "max_double = (2 ^ 53 - 1) * 2 ^ 971"

definition to_float :: "rat \<Rightarrow> pyfloat" where
  "to_float x =
     (let r = round_double x
      in if max_double < \<bar>r\<bar> then Infinity (x < 0) else Finite r)"

definition truediv :: "int \<Rightarrow> int \<Rightarrow> error + pyfloat" where
  \<comment> \<open>\<open>n / m\<close> on two Python integers: the correctly rounded quotient\<close>
  "truediv n m =
     (if m = 0 then Inl ZeroDivisionError
      else case to_float (of_int n / of_int m) of
             Finite r \<Rightarrow> Inr (Finite r)
           | _ \<Rightarrow> Inl OverflowError)"

fun float_mul :: "pyfloat \<Rightarrow> pyfloat \<Rightarrow> pyfloat" where
  "float_mul (Finite a) (Finite b) = to_float (a * b)"
| "float_mul (Infinity s) (Finite b) = (if b = 0 then NaN else Infinity (s \<noteq> (b < 0)))"
| "float_mul (Finite a) (Infinity t) = (if a = 0 then NaN else Infinity ((a < 0) \<noteq> t))"
| "float_mul (Infinity s) (Infinity t) = Infinity (s \<noteq> t)"
| "float_mul _ _ = NaN"

fun float_add :: "pyfloat \<Rightarrow> pyfloat \<Rightarrow> pyfloat" where
  "float_add (Finite a) (Finite b) = to_float (a + b)"
| "float_add (Infinity s) (Finite b) = Infinity s"
| "float_add (Finite a) (Infinity t) = Infinity t"
| "float_add (Infinity s) (Infinity t) = (if s = t then Infinity s else NaN)"
| "float_add _ _ = NaN"

definition truncate_rat :: "rat \<Rightarrow> int" where
  "truncate_rat x = (if 0 \<le> x then \<lfloor>x\<rfloor> else \<lceil>x\<rceil>)"

fun int_of_float :: "pyfloat \<Rightarrow> error + int" where
  \<comment> \<open>\<open>int(x)\<close> on a float: truncation toward zero\<close>
  "int_of_float (Finite x) = Inr (truncate_rat x)"
| "int_of_float (Infinity s) = Inl OverflowError"
| "int_of_float NaN = Inl (ValueError ''cannot convert float NaN to integer'')"

subsection \<open>The graph token\<close>

definition str_repeat :: "string \<Rightarrow> int \<Rightarrow> string" where
  \<comment> \<open>\<open>s * n\<close>: the empty string when \<open>n \<le> 0\<close>\<close>
  "str_repeat s n = concat (replicate (nat n) s)"

definition get_graph_line :: "int \<Rightarrow> int \<Rightarrow> error + string" where
  "get_graph_line n_occurrences max_occurrences =
     (if max_occurrences > 50 then
        (case truediv n_occurrences max_occurrences of
           Inl e \<Rightarrow> Inl e
         | Inr q \<Rightarrow>
             (case int_of_float (float_add (float_mul q (Finite 50)) (Finite 1)) of
                Inl e \<Rightarrow> Inl e
              | Inr k \<Rightarrow> Inr (str_repeat ''='' k)))
      else Inr (str_repeat ''='' n_occurrences))"

subsection \<open>Enumerating the outcomes\<close>

definition py_range :: "int \<Rightarrow> int \<Rightarrow> int list" where
  "py_range a b = [a..b - 1]"

definition itertools_product :: "'a list list \<Rightarrow> 'a list list" where
  \<comment> \<open>\<open>itertools.product(*pools)\<close>: each pool extends every partial tuple built so far\<close>
  "itertools_product pools =
     foldl (\<lambda>result pool. concat (map (\<lambda>x. map (\<lambda>y. x @ [y]) pool) result)) [[]] pools"

definition generate_all_rolls :: "int list \<Rightarrow> int list list" where
  "generate_all_rolls dice_faces =
     (let ranges = map (\<lambda>faces. py_range 1 (faces + 1)) dice_faces
      in itertools_product ranges)"

subsection \<open>The frequency table\<close>

text \<open>
  A \<^verbatim>\<open>Counter\<close> is a dictionary in insertion order: an association list with one pair
  per key. Counting an element bumps its pair or appends a new one; looking a missing key
  up gives 0.
\<close>

fun counter_incr :: "('k \<times> int) list \<Rightarrow> 'k \<Rightarrow> ('k \<times> int) list" where
  "counter_incr [] k = [(k, 1)]"
| "counter_incr ((k', c) # rest) k =
     (if k' = k then (k', c + 1) # rest else (k', c) # counter_incr rest k)"

definition Counter :: "'k list \<Rightarrow> ('k \<times> int) list" where
  "Counter xs = foldl counter_incr [] xs"

definition counter_get :: "('k \<times> int) list \<Rightarrow> 'k \<Rightarrow> int" where
  "counter_get c k = (case map_of c k of None \<Rightarrow> 0 | Some v \<Rightarrow> v)"

definition py_max :: "int list \<Rightarrow> error + int" where
  "py_max xs =
     (case xs of
        [] \<Rightarrow> Inl (ValueError ''max() arg is an empty sequence'')
      | x # rest \<Rightarrow> Inr (foldl max x rest))"

type_synonym sum_entry = "int \<times> pyfloat \<times> int \<times> string"

fun results_loop ::
  "(int \<times> int) list \<Rightarrow> int \<Rightarrow> int \<Rightarrow> int list \<Rightarrow> sum_entry list \<Rightarrow> error + sum_entry list" where
  "results_loop sum_counts total_combinations max_occurrences [] results = Inr results"
| "results_loop sum_counts total_combinations max_occurrences (total' # rest) results =
     (let count' = counter_get sum_counts total'
      in case truediv count' total_combinations of
           Inl e \<Rightarrow> Inl e
         | Inr probability \<Rightarrow>
             (case get_graph_line count' max_occurrences of
                Inl e \<Rightarrow> Inl e
              | Inr graph \<Rightarrow>
                  results_loop sum_counts total_combinations max_occurrences rest
                    (results @ [(total', probability, count', graph)])))"

definition process_dice :: "int list \<Rightarrow> error + (sum_entry list \<times> int)" where
  "process_dice dice_faces =
     (let rolls = generate_all_rolls dice_faces;
          sum_counts = Counter (map sum_list rolls);
          total_combinations = int (length rolls)
      in case py_max (map snd sum_counts) of
           Inl e \<Rightarrow> Inl e
         | Inr max_occurrences \<Rightarrow>
             (case results_loop sum_counts total_combinations max_occurrences
                     (sort (map fst sum_counts)) [] of
                Inl e \<Rightarrow> Inl e
              | Inr results \<Rightarrow> Inr (results, total_combinations)))"

subsection \<open>Die tokens and command-line arguments\<close>

text \<open>
  A character is a code point below 256. \<open>lower_char\<close> is \<^verbatim>\<open>str.lower\<close> on one such
  character; the only characters it maps to \<open>d\<close> are \<open>d\<close> and \<open>D\<close>, and the only
  characters the pattern \<^verbatim>\<open>\d\<close> accepts in that range are \<open>0\<close> to \<open>9\<close>.
\<close>

definition lower_char :: "char \<Rightarrow> char" where
  "lower_char c =
     (let n = (of_char c :: nat)
      in if (65 \<le> n \<and> n \<le> 90) \<or> (192 \<le> n \<and> n \<le> 222 \<and> n \<noteq> 215)
         then char_of (n + 32) else c)"

definition lower :: "string \<Rightarrow> string" where
  "lower s = map lower_char s"

definition is_digit :: "char \<Rightarrow> bool" where
  "is_digit c = (48 \<le> (of_char c :: nat) \<and> (of_char c :: nat) \<le> 57)"

definition digit_value :: "char \<Rightarrow> int" where
  "digit_value c = int (of_char c) - 48"

definition fullmatch_die :: "string \<Rightarrow> string option" where
  \<comment> \<open>\<^verbatim>\<open>re.fullmatch(r'd(\d+)', s)\<close>: group 1 of the match, if the whole of \<open>s\<close> matches\<close>
  "fullmatch_die s =
     (case s of
        [] \<Rightarrow> None
      | c # ds \<Rightarrow> if c = CHR ''d'' \<and> ds \<noteq> [] \<and> list_all is_digit ds then Some ds else None)"

definition int_of_digits :: "string \<Rightarrow> int" where
  \<comment> \<open>\<open>int(s)\<close> on a non-empty string of digits\<close>
  "int_of_digits ds = foldl (\<lambda>acc c. 10 * acc + digit_value c) 0 ds"

definition parse_die :: "string \<Rightarrow> error + int" where
  "parse_die arg =
     (case fullmatch_die (lower arg) of
        None \<Rightarrow> Inl (ValueError (''Invalid die format: '' @ arg))
      | Some group1 \<Rightarrow>
          if int_of_digits group1 < 1 then Inl (ValueError (''Invalid die format: '' @ arg))
          else Inr (int_of_digits group1))"

text \<open>
  What a call leaves behind: the items it printed, and how it ended. \<open>Table cols rows\<close>
  stands for the text \<^verbatim>\<open>df.to_string(index=False, columns=cols)\<close> of the data frame built
  from \<open>rows\<close>; the frame library is not part of this program.
\<close>

datatype out_item = Line string | Table "string list" "sum_entry list"

datatype 'a outcome = Return 'a | Raise error | SysExit int

definition startswith :: "string \<Rightarrow> string \<Rightarrow> bool" where
  "startswith s p = prefix p s"

definition list_append :: "'a list \<Rightarrow> 'a \<Rightarrow> error + 'a list" where
  \<comment> \<open>\<open>xs.append(x)\<close>, as the body of a \<^verbatim>\<open>try\<close>\<close>
  "list_append xs x = Inr (xs @ [x])"

fun parse_args_loop ::
  "string list \<Rightarrow> string list \<Rightarrow> string list \<Rightarrow> out_item list \<times> (string list \<times> string list) outcome" where
  "parse_args_loop [] dice flags = ([], Return (dice, flags))"
| "parse_args_loop (arg # args) dice flags =
     (if startswith arg ''-'' then parse_args_loop args dice (flags @ [arg])
      else case list_append dice arg of
             Inl (ValueError e) \<Rightarrow> ([Line e], SysExit 1)
           | Inl e \<Rightarrow> ([], Raise e)
           | Inr dice' \<Rightarrow> parse_args_loop args dice' flags)"

definition parse_args :: "string list \<Rightarrow> out_item list \<times> (string list \<times> string list) outcome" where
  "parse_args args = parse_args_loop args [] []"

definition flag_args :: "string list" where
  "flag_args = [''-p'', ''--prob'', ''-o'', ''--occ'', ''-g'', ''--graph'',
                ''-r'', ''--roll'', ''-h'', ''--help'']"

definition help_text :: "out_item list" where
  "help_text =
     [Line ''Usage: python DiceOdds.py [dice1] ... [-p|--prob] [-g|--graph] [-o|--occ] [-r|--roll]'',
      Line [],
      Line ''Example: python DiceOdds.py d6 d8 -p -g -o'',
      Line [],
      Line ''Flags:'',
      Line ''-p, --prob: Show probabilities'',
      Line ''-o, --occ: Show occurrences'',
      Line ''-g, --graph: Show a graph of occurrences'',
      Line ''-r, --roll: Roll the specified dice'',
      Line ''-h, --help: Show this help message'']"

type_synonym flag_values = "bool \<times> bool \<times> bool \<times> bool \<times> bool"

definition process_flags :: "string list \<Rightarrow> out_item list \<times> flag_values outcome" where
  "process_flags flags =
     (case filter (\<lambda>flag. flag \<notin> set flag_args) flags of
        flag # _ \<Rightarrow> ([Line (''Invalid flag: '' @ flag)], SysExit 1)
      | [] \<Rightarrow>
          (let show_prob = (''-p'' \<in> set flags \<or> ''--prob'' \<in> set flags);
               show_occurrences = (''-o'' \<in> set flags \<or> ''--occ'' \<in> set flags);
               show_graph = (''-g'' \<in> set flags \<or> ''--graph'' \<in> set flags);
               do_roll = (''-r'' \<in> set flags \<or> ''--roll'' \<in> set flags);
               show_help = (''-h'' \<in> set flags \<or> ''--help'' \<in> set flags \<or> ''help'' \<in> set flags
                            \<or> (\<not> show_prob \<and> \<not> show_occurrences \<and> \<not> show_graph \<and> \<not> do_roll))
           in if show_help then (help_text, Return (False, False, False, False, True))
              else ([], Return (show_prob, show_occurrences, show_graph, do_roll, show_help))))"

subsection \<open>Rendering\<close>

fun digits_of_nat :: "nat \<Rightarrow> string" where
  "digits_of_nat n =
     (if n < 10 then [char_of (48 + n)]
      else digits_of_nat (n div 10) @ [char_of (48 + n mod 10)])"

declare digits_of_nat.simps [simp del]

definition str_of_int :: "int \<Rightarrow> string" where
  \<comment> \<open>\<open>str(i)\<close>\<close>
  "str_of_int i = (if i < 0 then CHR ''-'' # digits_of_nat (nat (- i)) else digits_of_nat (nat i))"

fun print_graph_rows :: "int \<Rightarrow> int \<Rightarrow> sum_entry list \<Rightarrow> string \<Rightarrow> error + string" where
  "print_graph_rows max_sum_len max_occurrences [] graph = Inr graph"
| "print_graph_rows max_sum_len max_occurrences ((s, p, occ, g) # rows) graph =
     (let sum_len = int (length (str_of_int s));
          n_spaces = max (max_sum_len - sum_len) (4 - sum_len);
          spaces = str_repeat '' '' n_spaces
      in case get_graph_line occ max_occurrences of
           Inl e \<Rightarrow> Inl e
         | Inr occurrences \<Rightarrow>
             print_graph_rows max_sum_len max_occurrences rows
               (graph @ [CHR 0x0A] @ spaces @ str_of_int s @ '' | '' @ occurrences @ '' ''
                  @ str_of_int occ))"

definition print_graph :: "sum_entry list \<Rightarrow> error + out_item list" where
  \<comment> \<open>on an empty frame the maximum of a column is not a number, and \<open>int\<close> of it raises\<close>
  "print_graph df =
     (case df of
        [] \<Rightarrow> Inl (ValueError ''cannot convert float NaN to integer'')
      | row # rows \<Rightarrow>
          (let max_sum = foldl max (fst row) (map fst rows);
               max_sum_len = int (length (str_of_int max_sum));
               max_occurrences = foldl max (fst (snd (snd row))) (map (\<lambda>r. fst (snd (snd r))) rows);
               spaces = str_repeat '' '' (max_sum_len - 5);
               graph = ''Sums '' @ spaces @ ''| Graph''
           in case print_graph_rows max_sum_len max_occurrences df graph of
                Inl e \<Rightarrow> Inl e
              | Inr graph' \<Rightarrow> Inr [Line graph']))"

definition render :: "bool \<Rightarrow> bool \<Rightarrow> bool \<Rightarrow> sum_entry list \<Rightarrow> error + out_item list" where
  \<comment> \<open>the chain of \<^verbatim>\<open>if\<close>/\<^verbatim>\<open>elif\<close> that picks the columns\<close>
  "render show_prob show_occurrences show_graph df =
     (if show_prob \<and> show_occurrences \<and> show_graph then
        Inr [Table [''Sum'', ''Occurrences'', ''Probability'', ''Graph''] df, Line []]
      else if show_prob \<and> show_occurrences then
        Inr [Table [''Sum'', ''Occurrences'', ''Probability''] df, Line []]
      else if show_prob \<and> show_graph then
        Inr [Table [''Sum'', ''Probability'', ''Graph''] df, Line []]
      else if show_occurrences \<and> show_graph then
        Inr [Table [''Sum'', ''Occurrences'', ''Graph''] df, Line []]
      else if show_prob then
        Inr [Table [''Sum'', ''Probability''] df, Line []]
      else if show_occurrences then
        Inr [Table [''Sum'', ''Occurrences''] df, Line []]
      else if show_graph then
        (case print_graph df of Inl e \<Rightarrow> Inl e | Inr out \<Rightarrow> Inr (out @ [Line []]))
      else Inr [])"

subsection \<open>The command\<close>

text \<open>
  The random source is the function \<open>randbelow\<close>: \<^verbatim>\<open>random.choice(seq)\<close> is
  \<^verbatim>\<open>seq[randbelow(len(seq))]\<close>, and raises on an empty sequence.
\<close>

definition rand_choice :: "(nat \<Rightarrow> nat) \<Rightarrow> 'a list \<Rightarrow> error + 'a" where
  "rand_choice randbelow seq =
     (if seq = [] then Inl IndexError
      else if randbelow (length seq) < length seq then Inr (seq ! randbelow (length seq))
      else Inl IndexError)"

fun parse_dice :: "string list \<Rightarrow> error + int list" where
  \<comment> \<open>\<^verbatim>\<open>[parse_die(arg) for arg in dice]\<close>: the first failure ends the comprehension\<close>
  "parse_dice [] = Inr []"
| "parse_dice (arg # rest) =
     (case parse_die arg of
        Inl e \<Rightarrow> Inl e
      | Inr faces \<Rightarrow> (case parse_dice rest of Inl e \<Rightarrow> Inl e | Inr fs \<Rightarrow> Inr (faces # fs)))"

definition total_part :: "bool \<Rightarrow> bool \<Rightarrow> bool \<Rightarrow> bool \<Rightarrow> int \<Rightarrow> out_item list" where
  "total_part show_prob show_occurrences show_graph do_roll total_combinations =
     (if \<not> do_roll \<or> show_graph \<or> show_occurrences \<or> show_prob
      then [Line (''Total combinations: '' @ str_of_int total_combinations), Line []]
      else [])"

definition roll_part :: "(nat \<Rightarrow> nat) \<Rightarrow> bool \<Rightarrow> int list \<Rightarrow> error + out_item list" where
  "roll_part randbelow do_roll dice_faces =
     (if do_roll then
        (case rand_choice randbelow (generate_all_rolls dice_faces) of
           Inl e \<Rightarrow> Inl e
         | Inr outcome \<Rightarrow> Inr [Line (''Your Roll is: '' @ str_of_int (sum_list outcome)), Line []])
      else Inr [])"

fun run_dice ::
  "(nat \<Rightarrow> nat) \<Rightarrow> flag_values \<Rightarrow> string list \<Rightarrow> out_item list \<times> unit outcome" where
  \<comment> \<open>the body of \<open>DiceOdds\<close> once the flags are known\<close>
  "run_dice randbelow (show_prob, show_occurrences, show_graph, do_roll, show_help) dice =
     (if show_help then ([], Return ())
      else if dice = [] then ([Line ''Error: No dice specified.''], SysExit 1)
      else
        (case parse_dice dice of
           Inl (ValueError e) \<Rightarrow> ([Line e], SysExit 1)
         | Inl e \<Rightarrow> ([], Raise e)
         | Inr dice_faces \<Rightarrow>
             (case process_dice dice_faces of
                Inl e \<Rightarrow> ([], Raise e)
              | Inr (results, total_combinations) \<Rightarrow>
                  (case render show_prob show_occurrences show_graph results of
                     Inl e \<Rightarrow> ([Line []], Raise e)
                   | Inr shown \<Rightarrow>
                       (case roll_part randbelow do_roll dice_faces of
                          Inl e \<Rightarrow>
                            ([Line []] @ shown
                               @ total_part show_prob show_occurrences show_graph do_roll
                                   total_combinations,
                             Raise e)
                        | Inr rolled \<Rightarrow>
                            ([Line []] @ shown
                               @ total_part show_prob show_occurrences show_graph do_roll
                                   total_combinations
                               @ rolled,
                             Return ()))))))"

definition DiceOdds :: "(nat \<Rightarrow> nat) \<Rightarrow> string list \<Rightarrow> out_item list \<times> unit outcome" where
  "DiceOdds randbelow args =
     (if args = [] then
        ([Line ''Usage: python DiceOdds.py [dice1] ... [-p|--prob] [-g|--graph]''], SysExit 1)
      else case parse_args args of
             (out1, SysExit c) \<Rightarrow> (out1, SysExit c)
           | (out1, Raise e) \<Rightarrow> (out1, Raise e)
           | (out1, Return (dice, flags)) \<Rightarrow>
               (case process_flags flags of
                  (out2, SysExit c) \<Rightarrow> (out1 @ out2, SysExit c)
                | (out2, Raise e) \<Rightarrow> (out1 @ out2, Raise e)
                | (out2, Return fv) \<Rightarrow>
                    (case run_dice randbelow fv dice of
                       (out3, r) \<Rightarrow> (out1 @ out2 @ out3, r))))"

subsection \<open>Notions used to state the properties\<close>

fun lex_less :: "int list \<Rightarrow> int list \<Rightarrow> bool" where
  \<comment> \<open>the strict lexicographic order on tuples: the first component is the most significant\<close>
  "lex_less [] [] = False"
| "lex_less [] (y # ys) = True"
| "lex_less (x # xs) [] = False"
| "lex_less (x # xs) (y # ys) = (x < y \<or> (x = y \<and> lex_less xs ys))"

definition scaled_length :: "rat \<Rightarrow> int" where
  \<comment> \<open>what \<^verbatim>\<open>int(q * 50 + 1)\<close> computes when the quotient \<open>n / m\<close> is exactly \<open>q\<close>\<close>
  "scaled_length q = truncate_rat (round_double (round_double (round_double q * 50) + 1))"

definition entry_of :: "int multiset \<Rightarrow> int \<Rightarrow> sum_entry" where
  \<comment> \<open>the row of the sum \<open>s\<close> in the table of a multiset \<open>S\<close> of sums\<close>
  "entry_of S s =
     (let c = int (count S s);
          T = int (size S);
          M = Max ((\<lambda>k. int (count S k)) ` set_mset S)
      in (s, Finite (round_double (of_int c / of_int T)), c,
          str_repeat ''='' (if 50 < M then scaled_length (of_int c / of_int M) else c)))"

definition table_of :: "int multiset \<Rightarrow> sum_entry list \<times> int" where
  "table_of S = (map (entry_of S) (sorted_list_of_set (set_mset S)), int (size S))"

definition sum_multiset :: "int list \<Rightarrow> int multiset" where
  \<comment> \<open>the sums of all outcomes, with their multiplicities\<close>
  "sum_multiset dice_faces = mset (map sum_list (generate_all_rolls dice_faces))"


fun is_total_line :: "out_item \<Rightarrow> bool" where
  \<comment> \<open>a printed line that begins \<open>Total combinations: \<close>\<close>
  "is_total_line (Line s) = prefix ''Total combinations: '' s"
| "is_total_line (Table cols rows) = False"

section \<open>Properties\<close>

subsection \<open>Rounding to a double\<close>

lemma pow2_powi: "pow2 e = 2 powi e"
  by (simp add: pow2_def power_int_def power_one_over inverse_eq_divide)

lemma pow2_pos: "0 < pow2 e"
  by (simp add: pow2_powi)

lemma pow2_add: "pow2 (a + b) = pow2 a * pow2 b"
  by (simp add: pow2_powi power_int_add)

lemma pow2_mono: "a \<le> b \<Longrightarrow> pow2 a \<le> pow2 b"
  by (simp add: pow2_powi power_int_increasing)

lemma pow2_of_nat: "0 \<le> e \<Longrightarrow> pow2 e = of_int (2 ^ nat e)"
  by (simp add: pow2_def)

lemma bitlen_pow2_bounds:
  assumes "0 < p"
  shows "pow2 (bitlen p - 1) \<le> of_int p" and "of_int p < pow2 (bitlen p)"
proof -
  have b: "1 \<le> bitlen p" using assms by (simp add: bitlen_alt_def)
  have "2 ^ nat (bitlen p - 1) \<le> p" "p < 2 ^ nat (bitlen p)"
    using bitlen_bounds [OF assms] by simp_all
  then have "(of_int (2 ^ nat (bitlen p - 1)) :: rat) \<le> of_int p"
    and "(of_int p :: rat) < of_int (2 ^ nat (bitlen p))"
    by (simp_all only: of_int_le_iff of_int_less_iff)
  then show "pow2 (bitlen p - 1) \<le> of_int p" and "of_int p < pow2 (bitlen p)"
    using b by (simp_all add: pow2_of_nat)
qed

lemma floor_log2_bounds:
  assumes "0 < x"
  shows "pow2 (floor_log2 x) \<le> x" and "x < pow2 (floor_log2 x + 1)"
proof -
  obtain p q where pq: "quotient_of x = (p, q)" by (cases "quotient_of x")
  have q: "0 < q" using pq by (rule quotient_of_denom_pos)
  have x: "x = of_int p / of_int q" using pq by (rule quotient_of_div)
  have p: "0 < p" using assms q x by (simp add: zero_less_divide_iff)
  define d where "d = bitlen p - bitlen q"
  have qr: "(0::rat) < of_int q" using q by simp
  have "pow2 (d - 1) * of_int q < pow2 (d - 1) * pow2 (bitlen q)"
    using bitlen_pow2_bounds(2) [OF q] pow2_pos by simp
  also have "\<dots> = pow2 (bitlen p - 1)"
    by (simp add: d_def flip: pow2_add)
  also have "\<dots> \<le> of_int p" by (rule bitlen_pow2_bounds(1) [OF p])
  finally have lo: "pow2 (d - 1) < x"
    using qr by (simp add: x pos_less_divide_eq)
  have "of_int p < pow2 (bitlen p)" by (rule bitlen_pow2_bounds(2) [OF p])
  also have "\<dots> = pow2 (d + 1) * pow2 (bitlen q - 1)"
    by (simp add: d_def flip: pow2_add)
  also have "\<dots> \<le> pow2 (d + 1) * of_int q"
    using bitlen_pow2_bounds(1) [OF q] pow2_pos [of "d + 1"] by simp
  finally have hi: "x < pow2 (d + 1)"
    using qr by (simp add: x pos_divide_less_eq)
  have fl: "floor_log2 x = (if pow2 d \<le> x then d else d - 1)"
    by (simp add: floor_log2_def pq d_def)
  show "pow2 (floor_log2 x) \<le> x" using lo by (simp add: fl)
  show "x < pow2 (floor_log2 x + 1)" using hi by (simp add: fl)
qed

lemma floor_log2_mono:
  assumes "0 < x" "x \<le> y"
  shows "floor_log2 x \<le> floor_log2 y"
proof (rule ccontr)
  assume "\<not> floor_log2 x \<le> floor_log2 y"
  then have "floor_log2 y + 1 \<le> floor_log2 x" by simp
  then have "pow2 (floor_log2 y + 1) \<le> pow2 (floor_log2 x)" by (rule pow2_mono)
  moreover have "pow2 (floor_log2 x) \<le> x" using assms by (simp add: floor_log2_bounds)
  moreover have "y < pow2 (floor_log2 y + 1)" using assms by (simp add: floor_log2_bounds)
  ultimately show False using assms by simp
qed

lemma round_half_even_close:
  "\<bar>of_int (round_half_even x) - x\<bar> \<le> 1 / 2"
proof -
  have "of_int \<lfloor>x\<rfloor> \<le> x" "x < of_int \<lfloor>x\<rfloor> + 1" by linarith+
  then show ?thesis
    by (auto simp: round_half_even_def Let_def)
qed

lemma round_half_even_mono:
  assumes "x \<le> y"
  shows "round_half_even x \<le> round_half_even y"
proof (rule ccontr)
  assume "\<not> round_half_even x \<le> round_half_even y"
  then have "round_half_even y + 1 \<le> round_half_even x" by simp
  then have "(of_int (round_half_even y) :: rat) + 1 \<le> of_int (round_half_even x)"
    by (metis of_int_1 of_int_add of_int_le_iff)
  moreover have "of_int (round_half_even x) \<le> x + 1 / 2"
    using round_half_even_close [of x] by linarith
  moreover have "y - 1 / 2 \<le> of_int (round_half_even y)"
    using round_half_even_close [of y] by linarith
  ultimately have "x = y" using assms by linarith
  with \<open>\<not> round_half_even x \<le> round_half_even y\<close> show False by simp
qed

lemma round_half_even_of_int: "round_half_even (of_int k) = k"
  by (simp add: round_half_even_def)


lemma quantum_mono:
  assumes "0 < x" "x \<le> y"
  shows "quantum x \<le> quantum y"
  using floor_log2_mono [OF assms] assms by (simp add: quantum_def)

lemma round_double_pos:
  "0 < x \<Longrightarrow> round_double x = of_int (round_half_even (x / pow2 (quantum x))) * pow2 (quantum x)"
  by (simp add: round_double_def)

lemma round_double_mono_pos:
  assumes "0 < x" "x \<le> y"
  shows "round_double x \<le> round_double y"
proof -
  have y: "0 < y" using assms by simp
  define sx where "sx = quantum x"
  define sy where "sy = quantum y"
  have le: "sx \<le> sy" unfolding sx_def sy_def by (rule quantum_mono [OF assms])
  have rx: "round_double x = of_int (round_half_even (x / pow2 sx)) * pow2 sx"
    using assms by (simp add: round_double_pos sx_def)
  have ry: "round_double y = of_int (round_half_even (y / pow2 sy)) * pow2 sy"
    using y by (simp add: round_double_pos sy_def)
  show ?thesis
  proof (cases "sx = sy")
    case True
    have "x / pow2 sy \<le> y / pow2 sy"
      using assms pow2_pos [of sy] by (simp add: divide_right_mono)
    then have "round_half_even (x / pow2 sy) \<le> round_half_even (y / pow2 sy)"
      by (rule round_half_even_mono)
    then have "(of_int (round_half_even (x / pow2 sy)) :: rat) \<le> of_int (round_half_even (y / pow2 sy))"
      by simp
    then show ?thesis
      using pow2_pos [of sy] by (simp add: rx ry True mult_right_mono)
  next
    case False
    with le have lt: "sx < sy" by simp
    define ex where "ex = floor_log2 x"
    define ey where "ey = floor_log2 y"
    have sxe: "ex - 52 \<le> sx" using assms by (simp add: sx_def quantum_def ex_def)
    have "- 1074 \<le> sx" by (simp add: sx_def quantum_def)
    with lt have sye: "sy = ey - 52" using y by (simp add: sy_def quantum_def ey_def)
    have exey: "ex + 1 \<le> ey" using sxe lt sye by simp
    have ylo: "pow2 ey \<le> y" using y by (simp add: ey_def floor_log2_bounds)
    have xhi: "x \<le> pow2 ey"
    proof -
      have "x < pow2 (ex + 1)" using assms by (simp add: ex_def floor_log2_bounds)
      also have "\<dots> \<le> pow2 ey" using exey by (rule pow2_mono)
      finally show ?thesis by simp
    qed
    have "pow2 ey = of_int (2 ^ 52) * pow2 sy"
    proof -
      have "pow2 ey = pow2 (52 + sy)" by (simp add: sye)
      also have "\<dots> = pow2 52 * pow2 sy" by (rule pow2_add)
      finally show ?thesis by (simp add: pow2_def)
    qed
    then have "of_int (2 ^ 52) = pow2 ey / pow2 sy" using pow2_pos [of sy] by simp
    also have "\<dots> \<le> y / pow2 sy" using ylo pow2_pos [of sy] by (simp add: divide_right_mono)
    finally have "round_half_even (of_int (2 ^ 52)) \<le> round_half_even (y / pow2 sy)"
      by (rule round_half_even_mono)
    then have "(2 ^ 52 :: int) \<le> round_half_even (y / pow2 sy)"
      by (simp only: round_half_even_of_int)
    then have "(of_int (2 ^ 52) :: rat) \<le> of_int (round_half_even (y / pow2 sy))"
      by (simp only: of_int_le_iff)
    then have "of_int (2 ^ 52) * pow2 sy \<le> round_double y"
      using pow2_pos [of sy] by (simp only: ry mult_right_mono less_imp_le)
    with \<open>pow2 ey = of_int (2 ^ 52) * pow2 sy\<close> have ybig: "pow2 ey \<le> round_double y" by simp
    have nn: "0 \<le> ey - sx" using lt sye by simp
    have split: "pow2 ey = of_int (2 ^ nat (ey - sx)) * pow2 sx"
    proof -
      have "pow2 ey = pow2 ((ey - sx) + sx)" by simp
      also have "\<dots> = pow2 (ey - sx) * pow2 sx" by (rule pow2_add)
      finally show ?thesis using nn by (simp add: pow2_of_nat)
    qed
    have "x / pow2 sx \<le> pow2 ey / pow2 sx"
      using xhi pow2_pos [of sx] by (simp add: divide_right_mono)
    also have "\<dots> = of_int (2 ^ nat (ey - sx))" using split pow2_pos [of sx] by simp
    finally have "round_half_even (x / pow2 sx) \<le> round_half_even (of_int (2 ^ nat (ey - sx)))"
      by (rule round_half_even_mono)
    then have "round_half_even (x / pow2 sx) \<le> 2 ^ nat (ey - sx)"
      by (simp only: round_half_even_of_int)
    then have "(of_int (round_half_even (x / pow2 sx)) :: rat) \<le> of_int (2 ^ nat (ey - sx))"
      by (simp only: of_int_le_iff)
    then have "round_double x \<le> of_int (2 ^ nat (ey - sx)) * pow2 sx"
      using pow2_pos [of sx] by (simp only: rx mult_right_mono less_imp_le)
    then have "round_double x \<le> pow2 ey" by (simp only: split)
    with ybig show ?thesis by simp
  qed
qed

lemma round_double_nonneg:
  assumes "0 \<le> x"
  shows "0 \<le> round_double x"
proof (cases "x = 0")
  case True
  then show ?thesis by (simp add: round_double_def)
next
  case False
  with assms have x: "0 < x" by simp
  have "0 \<le> x / pow2 (quantum x)" using x pow2_pos [of "quantum x"] by simp
  then have "round_half_even 0 \<le> round_half_even (x / pow2 (quantum x))"
    by (rule round_half_even_mono)
  then have "0 \<le> round_half_even (x / pow2 (quantum x))"
    using round_half_even_of_int [of 0] by simp
  then show ?thesis using x pow2_pos [of "quantum x"] by (simp add: round_double_pos)
qed

lemma round_double_mono:
  assumes "0 \<le> x" "x \<le> y"
  shows "round_double x \<le> round_double y"
proof (cases "x = 0")
  case True
  then show ?thesis using assms round_double_nonneg [of y] by (simp add: round_double_def)
next
  case False
  then show ?thesis using assms by (simp add: round_double_mono_pos)
qed

lemma pow2_diff: "pow2 a / pow2 b = pow2 (a - b)"
proof -
  have "pow2 a = pow2 ((a - b) + b)" by simp
  also have "\<dots> = pow2 (a - b) * pow2 b" by (rule pow2_add)
  finally show ?thesis using pow2_pos [of b] by simp
qed

lemma round_double_dyadic:
  assumes "0 < n" "n < 2 ^ 53" "- 1074 \<le> t"
  shows "round_double (of_int n * pow2 t) = of_int n * pow2 t"
proof -
  define x where "x = (of_int n :: rat) * pow2 t"
  have x: "0 < x" using assms pow2_pos [of t] by (simp add: x_def)
  have "(of_int n :: rat) < of_int (2 ^ 53)" using assms(2) by (simp only: of_int_less_iff)
  then have "x < pow2 53 * pow2 t"
    using pow2_pos [of t] by (simp add: x_def pow2_def)
  then have xhi: "x < pow2 (53 + t)" by (simp add: pow2_add)
  have "floor_log2 x < 53 + t"
  proof (rule ccontr)
    assume "\<not> floor_log2 x < 53 + t"
    then have "pow2 (53 + t) \<le> pow2 (floor_log2 x)" by (intro pow2_mono) simp
    also have "\<dots> \<le> x" using x by (simp add: floor_log2_bounds)
    finally show False using xhi by simp
  qed
  then have s: "quantum x \<le> t" using x assms(3) by (simp add: quantum_def)
  have "x / pow2 (quantum x) = of_int n * pow2 (t - quantum x)"
    by (simp add: x_def flip: pow2_diff)
  also have "\<dots> = of_int (n * 2 ^ nat (t - quantum x))"
    using s by (simp add: pow2_of_nat)
  finally have "round_half_even (x / pow2 (quantum x)) = n * 2 ^ nat (t - quantum x)"
    by (simp only: round_half_even_of_int)
  then have "round_double x = of_int (n * 2 ^ nat (t - quantum x)) * pow2 (quantum x)"
    using x by (simp add: round_double_pos)
  also have "\<dots> = of_int n * (pow2 (t - quantum x) * pow2 (quantum x))"
    using s by (simp add: pow2_of_nat)
  also have "\<dots> = of_int n * pow2 t" by (simp flip: pow2_add)
  finally show ?thesis by (simp add: x_def)
qed

lemma round_double_of_int:
  assumes "0 \<le> n" "n < 2 ^ 53"
  shows "round_double (of_int n) = of_int n"
proof (cases "n = 0")
  case True
  then show ?thesis by (simp add: round_double_def)
next
  case False
  then show ?thesis
    using assms round_double_dyadic [of n 0] by (simp add: pow2_def)
qed

lemma round_double_1: "round_double 1 = 1"
  using round_double_of_int [of 1] by simp

lemma round_double_50: "round_double 50 = 50"
  using round_double_of_int [of 50] by simp

lemma round_double_51: "round_double 51 = 51"
  using round_double_of_int [of 51] by simp

lemma big: "51 \<le> max_double"
  by (simp add: max_double_def)


lemma to_float_small:
  assumes "0 \<le> x" "x \<le> 51"
  shows "to_float x = Finite (round_double x)"
proof -
  have "0 \<le> round_double x" using assms by (simp add: round_double_nonneg)
  moreover have "round_double x \<le> round_double 51" using assms by (rule round_double_mono)
  ultimately have "\<bar>round_double x\<bar> \<le> max_double"
    using big by (simp add: round_double_51)
  then show ?thesis by (simp add: to_float_def Let_def)
qed

lemma unit_quotient:
  assumes "0 \<le> c" "c \<le> T" "0 < T"
  shows "0 \<le> (of_int c / of_int T :: rat)" and "(of_int c / of_int T :: rat) \<le> 1"
  using assms by simp_all

lemma truediv_unit:
  assumes "0 \<le> c" "c \<le> T" "0 < T"
  shows "truediv c T = Inr (Finite (round_double (of_int c / of_int T)))"
proof -
  have "to_float (of_int c / of_int T) = Finite (round_double (of_int c / of_int T))"
    using unit_quotient [OF assms] by (intro to_float_small) simp_all
  then show ?thesis using assms by (simp add: truediv_def)
qed

lemma round_double_unit:
  assumes "0 \<le> q" "q \<le> 1"
  shows "0 \<le> round_double q" and "round_double q \<le> 1"
proof -
  show "0 \<le> round_double q" using assms by (simp add: round_double_nonneg)
  have "round_double q \<le> round_double 1" using assms by (rule round_double_mono)
  then show "round_double q \<le> 1" by (simp add: round_double_1)
qed

lemma scaled_steps:
  assumes "0 \<le> q" "q \<le> 1"
  shows "float_add (float_mul (Finite (round_double q)) (Finite 50)) (Finite 1)
         = Finite (round_double (round_double (round_double q * 50) + 1))"
proof -
  have a: "0 \<le> round_double q * 50" "round_double q * 50 \<le> 51"
    using round_double_unit [OF assms] by simp_all
  have m: "float_mul (Finite (round_double q)) (Finite 50) = Finite (round_double (round_double q * 50))"
    using a by (simp add: to_float_small)
  have "round_double (round_double q * 50) \<le> round_double 50"
    using a round_double_unit [OF assms] by (intro round_double_mono) simp_all
  then have b: "0 \<le> round_double (round_double q * 50) + 1" "round_double (round_double q * 50) + 1 \<le> 51"
    using round_double_nonneg [OF a(1)] by (simp_all add: round_double_50)
  have "float_add (Finite (round_double (round_double q * 50))) (Finite 1)
        = Finite (round_double (round_double (round_double q * 50) + 1))"
    using b by (simp add: to_float_small)
  then show ?thesis by (simp only: m)
qed

lemma get_graph_line_scaled:
  assumes "50 < m" "0 \<le> c" "c \<le> m"
  shows "get_graph_line c m = Inr (str_repeat ''='' (scaled_length (of_int c / of_int m)))"
proof -
  have m: "0 < m" using assms by simp
  have q: "0 \<le> (of_int c / of_int m :: rat)" "(of_int c / of_int m :: rat) \<le> 1"
    using unit_quotient [OF assms(2,3) m] by simp_all
  have "get_graph_line c m =
          (case int_of_float (float_add (float_mul (Finite (round_double (of_int c / of_int m)))
                  (Finite 50)) (Finite 1)) of
             Inl e \<Rightarrow> Inl e | Inr k \<Rightarrow> Inr (str_repeat ''='' k))"
    using assms(1) by (simp add: get_graph_line_def truediv_unit [OF assms(2,3) m] del: float_mul.simps)
  also have "\<dots> = Inr (str_repeat ''='' (scaled_length (of_int c / of_int m)))"
    by (simp only: scaled_steps [OF q] int_of_float.simps scaled_length_def sum.case)
  finally show ?thesis .
qed

lemma get_graph_line_small:
  "m \<le> 50 \<Longrightarrow> get_graph_line c m = Inr (str_repeat ''='' c)"
  by (simp add: get_graph_line_def)

lemma str_repeat_glyph: "str_repeat ''='' k = replicate (nat k) CHR ''=''"
proof -
  have "concat (replicate n ''='') = replicate n CHR ''=''" for n
    by (induction n) simp_all
  then show ?thesis by (simp add: str_repeat_def)
qed

lemma truncate_rat_mono: "0 \<le> x \<Longrightarrow> x \<le> y \<Longrightarrow> truncate_rat x \<le> truncate_rat y"
  by (simp add: truncate_rat_def floor_mono)

lemma scaled_length_mono:
  assumes "0 \<le> q" "q \<le> q'"
  shows "scaled_length q \<le> scaled_length q'"
proof -
  have 1: "0 \<le> round_double q" "round_double q \<le> round_double q'"
    using assms by (simp_all add: round_double_nonneg round_double_mono)
  then have 2: "0 \<le> round_double (round_double q * 50)"
    "round_double (round_double q * 50) \<le> round_double (round_double q' * 50)"
    by (simp_all add: round_double_nonneg round_double_mono)
  then have 3: "0 \<le> round_double (round_double (round_double q * 50) + 1)"
    "round_double (round_double (round_double q * 50) + 1)
       \<le> round_double (round_double (round_double q' * 50) + 1)"
    by (simp_all add: round_double_nonneg round_double_mono)
  then show ?thesis unfolding scaled_length_def by (rule truncate_rat_mono)
qed



lemma round_double_0: "round_double 0 = 0"
  by (simp add: round_double_def)

lemma scaled_length_0: "scaled_length 0 = 1"
  by (simp add: scaled_length_def round_double_0 round_double_1 truncate_rat_def)

lemma scaled_length_1: "scaled_length 1 = 51"
  by (simp add: scaled_length_def round_double_1 round_double_50 round_double_51 truncate_rat_def)

lemma scaled_length_bounds:
  assumes "0 \<le> q" "q \<le> 1"
  shows "1 \<le> scaled_length q" and "scaled_length q \<le> 51"
  using scaled_length_mono [of 0 q] scaled_length_mono [of q 1] assms
  by (simp_all add: scaled_length_0 scaled_length_1)

subsection \<open>How far rounding moves a number\<close>

lemma round_double_error:
  assumes "0 < x"
  shows "\<bar>round_double x - x\<bar> \<le> pow2 (quantum x) / 2"
proof -
  define p where "p = pow2 (quantum x)"
  have p: "0 < p" by (simp add: p_def pow2_pos)
  have "\<bar>of_int (round_half_even (x / p)) - x / p\<bar> \<le> 1 / 2"
    by (rule round_half_even_close)
  then have "\<bar>of_int (round_half_even (x / p)) - x / p\<bar> * p \<le> 1 / 2 * p"
    using p by (intro mult_right_mono) simp_all
  moreover have "\<bar>of_int (round_half_even (x / p)) - x / p\<bar> * p
                 = \<bar>of_int (round_half_even (x / p)) * p - x\<bar>"
  proof -
    have "\<bar>of_int (round_half_even (x / p)) - x / p\<bar> * p
          = \<bar>(of_int (round_half_even (x / p)) - x / p) * p\<bar>"
      using p by (simp add: abs_mult)
    also have "(of_int (round_half_even (x / p)) - x / p) * p
               = of_int (round_half_even (x / p)) * p - x"
      using p by (simp add: left_diff_distrib)
    finally show ?thesis .
  qed
  ultimately show ?thesis
    using assms by (simp add: round_double_pos p_def)
qed

lemma quantum_below_64:
  assumes "0 < x" "x < 64"
  shows "quantum x \<le> - 47"
proof -
  have "floor_log2 x < 6"
  proof (rule ccontr)
    assume "\<not> floor_log2 x < 6"
    then have "pow2 6 \<le> pow2 (floor_log2 x)" by (intro pow2_mono) simp
    also have "\<dots> \<le> x" using assms(1) by (simp add: floor_log2_bounds)
    finally show False using assms(2) by (simp add: pow2_def)
  qed
  then show ?thesis using assms(1) by (simp add: quantum_def)
qed

lemma round_double_near:
  assumes "0 < x" "x < 64"
  shows "x - 1 / 281474976710656 \<le> round_double x"
    and "round_double x \<le> x + 1 / 281474976710656"
proof -
  have "pow2 (quantum x) \<le> pow2 (- 47)"
    using quantum_below_64 [OF assms] by (rule pow2_mono)
  then have "pow2 (quantum x) / 2 \<le> 1 / 281474976710656" by (simp add: pow2_def)
  with round_double_error [OF assms(1)]
  have "\<bar>round_double x - x\<bar> \<le> 1 / 281474976710656" by linarith
  then show "x - 1 / 281474976710656 \<le> round_double x"
    and "round_double x \<le> x + 1 / 281474976710656"
    by linarith+
qed

lemma round_double_near0:
  assumes "0 \<le> x" "x < 64"
  shows "x - 1 / 281474976710656 \<le> round_double x"
    and "round_double x \<le> x + 1 / 281474976710656"
proof -
  show "x - 1 / 281474976710656 \<le> round_double x"
  proof (cases "x = 0")
    case True
    then show ?thesis by (simp add: round_double_0)
  next
    case False
    then show ?thesis using assms round_double_near(1) [of x] by simp
  qed
  show "round_double x \<le> x + 1 / 281474976710656"
  proof (cases "x = 0")
    case True
    then show ?thesis by (simp add: round_double_0)
  next
    case False
    then show ?thesis using assms round_double_near(2) [of x] by simp
  qed
qed

lemma truncate_rat_floor: "0 \<le> x \<Longrightarrow> truncate_rat x = \<lfloor>x\<rfloor>"
  by (simp add: truncate_rat_def)

lemma scaled_length_floor:
  assumes "0 \<le> q"
  shows "scaled_length q = \<lfloor>round_double (round_double (round_double q * 50) + 1)\<rfloor>"
proof -
  have "0 \<le> round_double q * 50" using assms by (simp add: round_double_nonneg)
  then have "0 \<le> round_double (round_double q * 50) + 1"
    using round_double_nonneg [of "round_double q * 50"] by simp
  then have "0 \<le> round_double (round_double (round_double q * 50) + 1)"
    by (rule round_double_nonneg)
  then show ?thesis by (simp add: scaled_length_def truncate_rat_floor)
qed

lemma scaled_length_lower:
  assumes "0 \<le> q" "q \<le> 1" "of_int K \<le> 50 * q"
  shows "K \<le> scaled_length q"
proof -
  define a where "a = round_double q"
  define y where "y = round_double (a * 50)"
  define z where "z = round_double (y + 1)"
  have sl: "scaled_length q = \<lfloor>z\<rfloor>"
    using assms(1) by (simp add: scaled_length_floor a_def y_def z_def)
  have a: "q - 1 / 281474976710656 \<le> a" "0 \<le> a" "a \<le> 1"
    unfolding a_def using round_double_near0(1) [of q] round_double_unit [of q] assms by simp_all
  have y: "a * 50 - 1 / 281474976710656 \<le> y" "0 \<le> y"
    unfolding y_def using round_double_near0(1) [of "a * 50"] round_double_nonneg [of "a * 50"] a
    by simp_all
  have z0: "0 \<le> z" unfolding z_def using y(2) by (intro round_double_nonneg) simp
  show ?thesis
  proof (cases "0 \<le> K")
    case False
    then have "K \<le> 0" by simp
    also have "0 \<le> \<lfloor>z\<rfloor>" using z0 by simp
    finally show ?thesis by (simp only: sl)
  next
    case True
    have "of_int K \<le> (50 :: rat)" using assms(2,3) by linarith
    then have "K \<le> 50" by linarith
    then have exact: "round_double (of_int K) = of_int K"
      using True by (intro round_double_of_int) simp_all
    have "of_int K \<le> y + 1" using assms(3) a(1) y(1) by linarith
    then have "round_double (of_int K) \<le> round_double (y + 1)"
      using True by (intro round_double_mono) simp_all
    then have "of_int K \<le> z" by (simp only: exact z_def)
    then show ?thesis by (simp only: sl le_floor_iff)
  qed
qed

lemma scaled_length_upper:
  assumes "0 \<le> q" "50 * q \<le> of_int K + 1 - 1 / 1099511627776" "K \<le> 49"
  shows "scaled_length q \<le> K + 1"
proof -
  define a where "a = round_double q"
  define y where "y = round_double (a * 50)"
  define z where "z = round_double (y + 1)"
  have sl: "scaled_length q = \<lfloor>z\<rfloor>"
    using assms(1) by (simp add: scaled_length_floor a_def y_def z_def)
  have q1: "q < 64" using assms(2,3) by linarith
  have a: "a \<le> q + 1 / 281474976710656" "0 \<le> a"
    unfolding a_def using round_double_near0(2) [of q] round_double_nonneg [of q] assms(1) q1
    by simp_all
  have a50: "0 \<le> a * 50" "a * 50 < 64" using a assms(2,3) by linarith+
  have y: "y \<le> a * 50 + 1 / 281474976710656" "0 \<le> y"
    unfolding y_def using round_double_near0(2) [of "a * 50"] round_double_nonneg [of "a * 50"] a50
    by simp_all
  have y1: "0 \<le> y + 1" "y + 1 < 64" using y a assms(2,3) by linarith+
  have z: "z \<le> y + 1 + 1 / 281474976710656"
    unfolding z_def using round_double_near0(2) [of "y + 1"] y1 by simp
  have "z < of_int K + 2" using z y(1) a(1) assms(2) by linarith
  then have "z < of_int (K + 2)" by simp
  then have "\<lfloor>z\<rfloor> < K + 2" by (simp only: floor_less_iff)
  then show ?thesis by (simp add: sl)
qed

subsection \<open>Splitting the arguments\<close>

lemma startswith_dash: "startswith a ''-'' \<longleftrightarrow> (\<exists>r. a = CHR ''-'' # r)"
  by (cases a) (auto simp: startswith_def)

lemma parse_args_loop_filter:
  "parse_args_loop args dice flags =
     ([], Return (dice @ filter (\<lambda>a. \<not> startswith a ''-'') args,
                  flags @ filter (\<lambda>a. startswith a ''-'') args))"
  by (induction args arbitrary: dice flags) (simp_all add: list_append_def)

text \<open>
  C10. \<open>parse_args\<close> always returns, printing nothing and never exiting: the flags are the
  arguments that begin with \<open>-\<close>, the dice are the others, both in their original order,
  and every argument is in exactly one of the two lists.
\<close>

theorem parse_args_partition:
  "\<exists>dice flags.
     parse_args args = ([], Return (dice, flags)) \<and>
     flags = filter (\<lambda>a. \<exists>r. a = CHR ''-'' # r) args \<and>
     dice = filter (\<lambda>a. \<not> (\<exists>r. a = CHR ''-'' # r)) args \<and>
     mset dice + mset flags = mset args \<and>
     set dice \<inter> set flags = {}"
proof -
  have "parse_args args =
          ([], Return (filter (\<lambda>a. \<not> (\<exists>r. a = CHR ''-'' # r)) args,
                       filter (\<lambda>a. \<exists>r. a = CHR ''-'' # r) args))"
    by (simp add: parse_args_def parse_args_loop_filter startswith_dash)
  moreover have "mset (filter (\<lambda>a. \<not> (\<exists>r. a = CHR ''-'' # r)) args)
                 + mset (filter (\<lambda>a. \<exists>r. a = CHR ''-'' # r) args) = mset args"
    by (induction args) simp_all
  moreover have "set (filter (\<lambda>a. \<not> (\<exists>r. a = CHR ''-'' # r)) args)
                 \<inter> set (filter (\<lambda>a. \<exists>r. a = CHR ''-'' # r) args) = {}"
    by auto
  ultimately show ?thesis by blast
qed

subsection \<open>The outcome space\<close>

lemma append_snoc_fun: "(@) (a @ [x]) = (\<lambda>t. a @ x # t)"
  by (simp add: fun_eq_iff)

lemma append_Nil_fun: "(@) [] = (\<lambda>t. t)"
  by (simp add: fun_eq_iff)

lemma product_step_eq:
  "foldl (\<lambda>result pool. concat (map (\<lambda>x. map (\<lambda>y. x @ [y]) pool) result)) acc pools
   = concat (map (\<lambda>x. map (\<lambda>t. x @ t) (product_lists pools)) acc)"
proof (induction pools arbitrary: acc)
  case Nil
  show ?case by (induction acc) simp_all
next
  case (Cons p ps)
  have "concat (map (\<lambda>x. map (\<lambda>t. x @ t) (product_lists ps))
                  (concat (map (\<lambda>x. map (\<lambda>y. x @ [y]) p) acc)))
        = concat (map (\<lambda>x. map (\<lambda>t. x @ t) (product_lists (p # ps))) acc)"
    by (induction acc) (simp_all add: map_concat comp_def append_snoc_fun)
  then show ?case by (simp add: Cons)
qed

lemma itertools_product_eq: "itertools_product pools = product_lists pools"
  by (simp add: itertools_product_def product_step_eq append_Nil_fun)

lemma generate_all_rolls_Nil: "generate_all_rolls [] = [[]]"
  by (simp add: generate_all_rolls_def itertools_product_eq)

lemma generate_all_rolls_Cons:
  "generate_all_rolls (f # fs) = concat (map (\<lambda>x. map (Cons x) (generate_all_rolls fs)) [1..f])"
  by (simp add: generate_all_rolls_def itertools_product_eq py_range_def)

lemma length_concat_map_Cons:
  "length (concat (map (\<lambda>x. map (Cons x) R) xs)) = length xs * length R"
  by (induction xs) simp_all

lemma length_generate_all_rolls:
  "\<forall>f \<in> set fs. 1 \<le> f \<Longrightarrow> int (length (generate_all_rolls fs)) = prod_list fs"
  by (induction fs) (simp_all add: generate_all_rolls_Nil generate_all_rolls_Cons length_concat_map_Cons)

lemma set_generate_all_rolls_Cons:
  "set (generate_all_rolls (f # fs)) = {x # r | x r. 1 \<le> x \<and> x \<le> f \<and> r \<in> set (generate_all_rolls fs)}"
  by (auto simp: generate_all_rolls_Cons)

lemma set_generate_all_rolls:
  "set (generate_all_rolls fs) =
     {roll. length roll = length fs \<and> (\<forall>i < length fs. 1 \<le> roll ! i \<and> roll ! i \<le> fs ! i)}"
proof (induction fs)
  case Nil
  show ?case by (simp add: generate_all_rolls_Nil)
next
  case (Cons f fs)
  show ?case
  proof (intro set_eqI iffI)
    fix roll assume "roll \<in> set (generate_all_rolls (f # fs))"
    then obtain x r where r: "roll = x # r" "1 \<le> x" "x \<le> f" "r \<in> set (generate_all_rolls fs)"
      by (auto simp: set_generate_all_rolls_Cons)
    then have "length r = length fs" "\<forall>i < length fs. 1 \<le> r ! i \<and> r ! i \<le> fs ! i"
      using Cons by auto
    with r show "roll \<in> {roll. length roll = length (f # fs) \<and>
                     (\<forall>i < length (f # fs). 1 \<le> roll ! i \<and> roll ! i \<le> (f # fs) ! i)}"
      by (auto simp: nth_Cons split: nat.splits)
  next
    fix roll assume a: "roll \<in> {roll. length roll = length (f # fs) \<and>
                     (\<forall>i < length (f # fs). 1 \<le> roll ! i \<and> roll ! i \<le> (f # fs) ! i)}"
    then obtain x r where xr: "roll = x # r" "length r = length fs"
      by (cases roll) auto
    from a xr have "1 \<le> x \<and> x \<le> f" by auto
    moreover from a xr have "\<forall>i < length fs. 1 \<le> r ! i \<and> r ! i \<le> fs ! i" by fastforce
    ultimately show "roll \<in> set (generate_all_rolls (f # fs))"
      using xr Cons by (auto simp: set_generate_all_rolls_Cons)
  qed
qed

lemma sorted_lex_concat_map_Cons:
  "sorted_wrt (<) xs \<Longrightarrow> sorted_wrt lex_less R \<Longrightarrow>
   sorted_wrt lex_less (concat (map (\<lambda>x. map (Cons x) R) xs))"
  by (induction xs) (auto simp: sorted_wrt_append sorted_wrt_map)

lemma sorted_generate_all_rolls: "sorted_wrt lex_less (generate_all_rolls fs)"
  by (induction fs) (simp_all add: generate_all_rolls_Nil generate_all_rolls_Cons sorted_lex_concat_map_Cons)

lemma lex_less_lexord: "lex_less a b \<longleftrightarrow> (a, b) \<in> lexord {(x, y). x < y}"
  by (induction a b rule: lex_less.induct) simp_all

text \<open>
  C2. For face counts that are all at least 1, \<open>generate_all_rolls\<close> lists the whole
  Cartesian product of the ranges \<open>1..F\<^sub>i\<close>: it has as many tuples as the product of the
  face counts, its tuples are exactly those of the right length whose \<open>i\<close>-th component
  lies in \<open>1..F\<^sub>i\<close>, and they come in strictly increasing lexicographic order, so the first
  die varies slowest and the last die fastest.
\<close>

theorem generate_all_rolls_cartesian:
  assumes "dice_faces \<noteq> []" and "\<forall>f \<in> set dice_faces. 1 \<le> f"
  shows "int (length (generate_all_rolls dice_faces)) = prod_list dice_faces \<and>
         set (generate_all_rolls dice_faces) =
           {roll. length roll = length dice_faces \<and>
                  (\<forall>i < length dice_faces. 1 \<le> roll ! i \<and> roll ! i \<le> dice_faces ! i)} \<and>
         sorted_wrt lex_less (generate_all_rolls dice_faces)"
  using assms length_generate_all_rolls set_generate_all_rolls sorted_generate_all_rolls by blast

theorem generate_all_rolls_cartesian_witness:
  "[2, 3] \<noteq> ([] :: int list) \<and> (1 :: int) \<le> 2 \<and> (1 :: int) \<le> 3 \<and>
   int (length (generate_all_rolls [2, 3])) = 6 \<and>
   sorted_wrt lex_less (generate_all_rolls [2, 3]) \<and>
   [1, 3] \<in> set (generate_all_rolls [2, 3])"
proof -
  have h1: "[2, 3] \<noteq> ([] :: int list)" by simp
  have h2: "\<forall>f \<in> set [2, 3 :: int]. 1 \<le> f" by simp
  show ?thesis
    using generate_all_rolls_cartesian [OF h1 h2] by (simp add: nth_Cons split: nat.splits)
qed

subsection \<open>Counting the sums\<close>

lemma counter_get_incr:
  "counter_get (counter_incr c k) j = counter_get c j + (if j = k then 1 else 0)"
  by (induction c k rule: counter_incr.induct) (auto simp: counter_get_def)

lemma keys_counter_incr: "fst ` set (counter_incr c k) = insert k (fst ` set c)"
  by (induction c k rule: counter_incr.induct) auto

lemma distinct_counter_incr:
  "distinct (map fst c) \<Longrightarrow> distinct (map fst (counter_incr c k))"
proof (induction c k rule: counter_incr.induct)
  case (1 k)
  show ?case by simp
next
  case (2 k' c rest k)
  then show ?case using keys_counter_incr [of rest k] by auto
qed

lemma counter_get_foldl:
  "counter_get (foldl counter_incr c xs) j = counter_get c j + int (count_list xs j)"
  by (induction xs arbitrary: c) (simp_all add: counter_get_incr)

lemma keys_foldl: "fst ` set (foldl counter_incr c xs) = fst ` set c \<union> set xs"
  by (induction xs arbitrary: c) (simp_all add: keys_counter_incr)

lemma distinct_foldl:
  "distinct (map fst c) \<Longrightarrow> distinct (map fst (foldl counter_incr c xs))"
  by (induction xs arbitrary: c) (simp_all add: distinct_counter_incr)

lemma counter_get_Counter: "counter_get (Counter xs) j = int (count_list xs j)"
  by (simp add: Counter_def counter_get_foldl) (simp add: counter_get_def)

lemma keys_Counter: "fst ` set (Counter xs) = set xs"
  by (simp add: Counter_def keys_foldl)

lemma distinct_Counter: "distinct (map fst (Counter xs))"
  by (simp add: Counter_def distinct_foldl)

lemma values_by_key:
  "distinct (map fst c) \<Longrightarrow> map snd c = map (counter_get c) (map fst c)"
proof (induction c)
  case Nil
  show ?case by simp
next
  case (Cons a c)
  have "counter_get (a # c) k = counter_get c k" if "k \<in> set (map fst c)" for k
    using that Cons.prems by (cases a) (auto simp: counter_get_def)
  then have "map (counter_get (a # c)) (map fst c) = map (counter_get c) (map fst c)"
    by (intro map_cong) simp_all
  then show ?case using Cons by (cases a) (simp add: counter_get_def)
qed

lemma values_Counter:
  "set (map snd (Counter xs)) = (\<lambda>k. int (count_list xs k)) ` set xs"
proof -
  have "map snd (Counter xs) = map (\<lambda>k. int (count_list xs k)) (map fst (Counter xs))"
    using values_by_key [OF distinct_Counter, of xs] by (simp add: counter_get_Counter)
  then have "set (map snd (Counter xs)) = (\<lambda>k. int (count_list xs k)) ` (fst ` set (Counter xs))"
    by (metis set_map)
  then show ?thesis by (simp only: keys_Counter)
qed

lemma sorted_keys_Counter: "sort (map fst (Counter xs)) = sorted_list_of_set (set xs)"
proof -
  have "sorted_list_of_set (set (map fst (Counter xs))) = sort (remdups (map fst (Counter xs)))"
    by (rule sorted_list_of_set_sort_remdups)
  moreover have "remdups (map fst (Counter xs)) = map fst (Counter xs)"
    using distinct_Counter [of xs] by (rule distinct_remdups_id)
  moreover have "set (map fst (Counter xs)) = set xs"
    using keys_Counter [of xs] by simp
  ultimately show ?thesis by simp
qed

lemma max_flip: "(\<lambda>x s. max s x) = (max :: int \<Rightarrow> int \<Rightarrow> int)"
  by (simp add: fun_eq_iff max.commute)

lemma py_max_Max:
  assumes "xs \<noteq> []"
  shows "py_max xs = Inr (Max (set xs))"
proof -
  obtain x rest where xs: "xs = x # rest" using assms by (cases xs) auto
  have "foldl max x rest = fold max rest x"
    by (simp add: foldl_conv_fold max_flip)
  also have "\<dots> = Max (set (x # rest))" by (rule Max.set_eq_fold [symmetric])
  finally show ?thesis by (simp add: xs py_max_def)
qed

lemma Counter_empty: "Counter xs = [] \<longleftrightarrow> xs = []"
  using keys_Counter [of xs] by (metis image_is_empty set_empty)

subsection \<open>The table as a function of the multiset of sums\<close>

lemma results_loop_closed:
  assumes "0 < T"
    and "\<forall>k \<in> set ks. 0 \<le> counter_get sc k \<and> counter_get sc k \<le> T \<and> counter_get sc k \<le> M"
  shows "results_loop sc T M ks res =
           Inr (res @ map (\<lambda>k. (k, Finite (round_double (of_int (counter_get sc k) / of_int T)),
                                counter_get sc k,
                                str_repeat ''='' (if 50 < M then scaled_length (of_int (counter_get sc k) / of_int M)
                                                  else counter_get sc k))) ks)"
  using assms(2)
proof (induction ks arbitrary: res)
  case Nil
  show ?case by simp
next
  case (Cons k ks)
  have c: "0 \<le> counter_get sc k" "counter_get sc k \<le> T" "counter_get sc k \<le> M"
    using Cons.prems by simp_all
  have g: "get_graph_line (counter_get sc k) M =
             Inr (str_repeat ''='' (if 50 < M then scaled_length (of_int (counter_get sc k) / of_int M)
                                    else counter_get sc k))"
    using c by (simp add: get_graph_line_scaled get_graph_line_small)
  show ?case
    using Cons.prems by (simp add: Let_def truediv_unit [OF c(1,2) assms(1)] g Cons.IH)
qed

lemma rolls_nonempty:
  assumes "\<forall>f \<in> set fs. 1 \<le> f"
  shows "generate_all_rolls fs \<noteq> []"
proof -
  have "1 \<le> prod_list fs" using assms
  proof (induction fs)
    case Nil
    show ?case by simp
  next
    case (Cons f fs)
    then have "1 \<le> f" "1 \<le> prod_list fs" by simp_all
    then have "1 * 1 \<le> f * prod_list fs" by (intro mult_mono) simp_all
    then show ?case by simp
  qed
  then show ?thesis using length_generate_all_rolls [OF assms] by auto
qed

lemma process_dice_table:
  assumes "\<forall>f \<in> set fs. 1 \<le> f"
  shows "process_dice fs = Inr (table_of (sum_multiset fs))"
proof -
  define sms where "sms = map sum_list (generate_all_rolls fs)"
  define M where "M = Max ((\<lambda>k. int (count_list sms k)) ` set sms)"
  have ne: "sms \<noteq> []" using rolls_nonempty [OF assms] by (simp add: sms_def)
  then have T: "0 < int (length sms)" by simp
  have vals: "map snd (Counter sms) \<noteq> []" using ne by (simp add: Counter_empty)
  have mx: "py_max (map snd (Counter sms)) = Inr M"
    using py_max_Max [OF vals] by (simp only: values_Counter M_def)
  have bound: "\<forall>k \<in> set (sorted_list_of_set (set sms)).
                 0 \<le> counter_get (Counter sms) k \<and> counter_get (Counter sms) k \<le> int (length sms)
                 \<and> counter_get (Counter sms) k \<le> M"
    by (simp add: counter_get_Counter count_le_length M_def)
  have loop: "results_loop (Counter sms) (int (length sms)) M (sorted_list_of_set (set sms)) []
              = Inr (map (entry_of (mset sms)) (sorted_list_of_set (set sms)))"
    unfolding results_loop_closed [OF T bound]
    by (simp add: counter_get_Counter entry_of_def Let_def count_mset M_def)
  have "process_dice fs =
          (case py_max (map snd (Counter sms)) of
             Inl e \<Rightarrow> Inl e
           | Inr mo \<Rightarrow>
               (case results_loop (Counter sms) (int (length sms)) mo (sort (map fst (Counter sms))) [] of
                  Inl e \<Rightarrow> Inl e
                | Inr results \<Rightarrow> Inr (results, int (length sms))))"
    by (simp add: process_dice_def Let_def sms_def cong: sum.case_cong)
  also have "\<dots> = Inr (map (entry_of (mset sms)) (sorted_list_of_set (set sms)), int (length sms))"
    by (simp only: mx sorted_keys_Counter loop sum.case)
  also have "\<dots> = Inr (table_of (mset sms))"
    by (simp add: table_of_def)
  finally show ?thesis by (simp only: sms_def sum_multiset_def)
qed

subsection \<open>The multiset of sums\<close>

lemma count_shift: "count (image_mset ((+) (a::int)) M) k = count M (k - a)"
  by (induction M) auto

lemma sums_shift:
  "image_mset sum_list (image_mset (Cons a) M) = image_mset ((+) a) (image_mset sum_list M)"
  by (simp add: multiset.map_comp comp_def)

lemma count_sums_concat:
  "count (image_mset sum_list (mset (concat (map (\<lambda>x. map (Cons x) R) xs)))) (k::int)
   =(\<Sum>x\<leftarrow>xs. count (image_mset sum_list (mset R)) (k - x))"
  by (induction xs) (simp_all add: sums_shift count_shift)

lemma sum_multiset_Nil: "sum_multiset [] = {#0#}"
  by (simp add: sum_multiset_def generate_all_rolls_Nil)

lemma count_sum_multiset_Cons:
  "count (sum_multiset (f # fs)) k = (\<Sum>x = 1..f. count (sum_multiset fs) (k - x))"
proof -
  have "(\<Sum>x\<leftarrow>[1..f]. count (sum_multiset fs) (k - x))
        = (\<Sum>x \<in> set [1..f]. count (sum_multiset fs) (k - x))"
    by (rule sum_list_distinct_conv_sum_set) simp
  moreover have "count (sum_multiset (f # fs)) k = (\<Sum>x\<leftarrow>[1..f]. count (sum_multiset fs) (k - x))"
    by (simp add: sum_multiset_def generate_all_rolls_Cons count_sums_concat)
  ultimately show ?thesis by simp
qed

lemma sum_multiset_swap: "sum_multiset (a # b # fs) = sum_multiset (b # a # fs)"
proof (rule multiset_eqI)
  fix k
  have "(\<Sum>x = 1..a. \<Sum>y = 1..b. count (sum_multiset fs) (k - x - y))
        = (\<Sum>y = 1..b. \<Sum>x = 1..a. count (sum_multiset fs) (k - x - y))"
    by (rule sum.swap)
  also have "\<dots> = (\<Sum>y = 1..b. \<Sum>x = 1..a. count (sum_multiset fs) (k - y - x))"
    by (simp add: algebra_simps)
  finally show "count (sum_multiset (a # b # fs)) k = count (sum_multiset (b # a # fs)) k"
    by (simp only: count_sum_multiset_Cons)
qed

lemma sum_multiset_cong:
  assumes "sum_multiset fs = sum_multiset gs"
  shows "sum_multiset (a # fs) = sum_multiset (a # gs)"
  by (rule multiset_eqI) (simp only: count_sum_multiset_Cons assms)

lemma sum_multiset_move_front: "sum_multiset (xs @ a # ys) = sum_multiset (a # xs @ ys)"
proof (induction xs)
  case Nil
  show ?case by simp
next
  case (Cons x xs)
  have "sum_multiset (x # xs @ a # ys) = sum_multiset (x # a # xs @ ys)"
    using Cons by (rule sum_multiset_cong)
  also have "\<dots> = sum_multiset (a # x # xs @ ys)"
    by (rule sum_multiset_swap)
  finally show ?case by simp
qed

lemma sum_multiset_permutation:
  "mset fs = mset gs \<Longrightarrow> sum_multiset fs = sum_multiset gs"
proof (induction fs arbitrary: gs)
  case Nil
  then show ?case by simp
next
  case (Cons a fs)
  then have "a \<in> set gs" by (metis list.set_intros(1) set_mset_mset)
  then obtain xs ys where gs: "gs = xs @ a # ys" by (meson split_list)
  with Cons.prems have "mset fs = mset (xs @ ys)" by simp
  then have "sum_multiset fs = sum_multiset (xs @ ys)"
    by (rule Cons.IH)
  then have "sum_multiset (a # fs) = sum_multiset (a # xs @ ys)"
    by (rule sum_multiset_cong)
  then show ?case by (simp only: gs sum_multiset_move_front)
qed

lemma length_le_sum_list:
  "\<forall>f \<in> set fs. 1 \<le> f \<Longrightarrow> int (length fs) \<le> sum_list fs"
  by (induction fs) auto

lemma set_sums:
  assumes "\<forall>f \<in> set fs. 1 \<le> f"
  shows "sum_list ` set (generate_all_rolls fs) = {int (length fs) .. sum_list fs}"
  using assms
proof (induction fs)
  case Nil
  show ?case by (simp add: generate_all_rolls_Nil)
next
  case (Cons f fs)
  have f: "1 \<le> f" using Cons.prems by simp
  have nS: "int (length fs) \<le> sum_list fs" using Cons.prems by (simp add: length_le_sum_list)
  have IH: "sum_list ` set (generate_all_rolls fs) = {int (length fs) .. sum_list fs}"
    using Cons by simp
  have "sum_list ` set (generate_all_rolls (f # fs))
        = {x + s | x s. 1 \<le> x \<and> x \<le> f \<and> s \<in> sum_list ` set (generate_all_rolls fs)}"
  proof (intro set_eqI iffI)
    fix t assume "t \<in> sum_list ` set (generate_all_rolls (f # fs))"
    then obtain x r where "t = sum_list (x # r)" "1 \<le> x" "x \<le> f" "r \<in> set (generate_all_rolls fs)"
      by (auto simp: set_generate_all_rolls_Cons)
    then show "t \<in> {x + s | x s. 1 \<le> x \<and> x \<le> f \<and> s \<in> sum_list ` set (generate_all_rolls fs)}"
      by auto
  next
    fix t assume "t \<in> {x + s | x s. 1 \<le> x \<and> x \<le> f \<and> s \<in> sum_list ` set (generate_all_rolls fs)}"
    then obtain x r where xr: "t = x + sum_list r" "1 \<le> x" "x \<le> f" "r \<in> set (generate_all_rolls fs)"
      by auto
    then have "x # r \<in> set (generate_all_rolls (f # fs))"
      by (simp add: set_generate_all_rolls_Cons)
    moreover have "t = sum_list (x # r)" using xr by simp
    ultimately show "t \<in> sum_list ` set (generate_all_rolls (f # fs))" by blast
  qed
  also have "\<dots> = {x + s | x s. 1 \<le> x \<and> x \<le> f \<and> int (length fs) \<le> s \<and> s \<le> sum_list fs}"
    by (simp add: IH)
  also have "\<dots> = {1 + int (length fs) .. f + sum_list fs}"
  proof (intro set_eqI iffI)
    fix t assume "t \<in> {x + s | x s. 1 \<le> x \<and> x \<le> f \<and> int (length fs) \<le> s \<and> s \<le> sum_list fs}"
    then show "t \<in> {1 + int (length fs) .. f + sum_list fs}" by auto
  next
    fix t assume t: "t \<in> {1 + int (length fs) .. f + sum_list fs}"
    define x where "x = max 1 (t - sum_list fs)"
    have "1 \<le> x" "x \<le> f" "int (length fs) \<le> t - x" "t - x \<le> sum_list fs"
      using t f nS by (auto simp: x_def)
    moreover have "t = x + (t - x)" by simp
    ultimately show "t \<in> {x + s | x s. 1 \<le> x \<and> x \<le> f \<and> int (length fs) \<le> s \<and> s \<le> sum_list fs}"
      by blast
  qed
  finally show ?case by simp
qed

lemma set_sum_multiset:
  "\<forall>f \<in> set fs. 1 \<le> f \<Longrightarrow> set_mset (sum_multiset fs) = {int (length fs) .. sum_list fs}"
  using set_sums [of fs] by (simp add: sum_multiset_def)

lemma size_sum_multiset:
  "\<forall>f \<in> set fs. 1 \<le> f \<Longrightarrow> int (size (sum_multiset fs)) = prod_list fs"
  by (simp add: sum_multiset_def length_generate_all_rolls)

subsection \<open>The frequency table\<close>

lemma entry_of_sum: "fst (entry_of S s) = s"
  by (simp add: entry_of_def Let_def)

lemma entry_of_count: "(case entry_of S s of (s', p, c, g) \<Rightarrow> c) = int (count S s)"
  by (simp add: entry_of_def Let_def)

lemma sum_counts_size:
  "(\<Sum>s\<leftarrow>sorted_list_of_set (set_mset S). int (count S s)) = int (size S)"
proof -
  have "(\<Sum>s\<leftarrow>sorted_list_of_set (set_mset S). int (count S s))
        = (\<Sum>s \<in> set (sorted_list_of_set (set_mset S)). int (count S s))"
    by (rule sum_list_distinct_conv_sum_set) simp
  also have "\<dots> = int (\<Sum>s \<in> set_mset S. count S s)" by simp
  also have "\<dots> = int (size S)" by (simp add: size_multiset_overloaded_eq)
  finally show ?thesis .
qed

lemma table_of_counts:
  "sum_list (map (\<lambda>(s, p, c, g). c) (fst (table_of S))) = int (size S)"
proof -
  have "((\<lambda>(s, p, c, g). c) \<circ> entry_of S) = (\<lambda>s. int (count S s))"
    by (simp add: fun_eq_iff entry_of_count)
  then have "map (\<lambda>(s, p, c, g). c) (map (entry_of S) (sorted_list_of_set (set_mset S)))
        = map (\<lambda>s. int (count S s)) (sorted_list_of_set (set_mset S))"
    by (simp only: map_map)
  then show ?thesis by (simp only: table_of_def fst_conv sum_counts_size)
qed

lemma table_of_keys: "map fst (fst (table_of S)) = sorted_list_of_set (set_mset S)"
  by (simp add: table_of_def comp_def entry_of_sum)

lemma sorted_list_of_interval: "sorted_list_of_set {a..b::int} = [a..b]"
proof -
  have "sorted [a..b]" "distinct [a..b]" "set [a..b] = {a..b}" by simp_all
  then show ?thesis
    by (metis finite_atLeastAtMost_int sorted_list_of_set.idem_if_sorted_distinct)
qed

text \<open>
  C1. For face counts that are all at least 1, \<open>process_dice\<close> succeeds; the total it
  returns is the product of the face counts, and the count fields of the table add up to
  exactly that total.
\<close>

theorem process_dice_counts_total:
  assumes "dice_faces \<noteq> []" and "\<forall>f \<in> set dice_faces. 1 \<le> f"
  shows "\<exists>results. process_dice dice_faces = Inr (results, prod_list dice_faces) \<and>
           sum_list (map (\<lambda>(s, p, c, g). c) results) = prod_list dice_faces"
proof -
  have "process_dice dice_faces = Inr (table_of (sum_multiset dice_faces))"
    using assms(2) by (rule process_dice_table)
  moreover have "snd (table_of (sum_multiset dice_faces)) = prod_list dice_faces"
    using assms(2) by (simp add: table_of_def size_sum_multiset)
  moreover have "sum_list (map (\<lambda>(s, p, c, g). c) (fst (table_of (sum_multiset dice_faces))))
                 = prod_list dice_faces"
    using assms(2) by (simp only: table_of_counts size_sum_multiset)
  ultimately show ?thesis by (metis prod.collapse)
qed

theorem process_dice_counts_total_witness:
  "[2, 3] \<noteq> ([] :: int list) \<and> (1 :: int) \<le> 2 \<and> (1 :: int) \<le> 3 \<and>
   (\<exists>results. process_dice [2, 3] = Inr (results, 6) \<and>
      sum_list (map (\<lambda>(s, p, c, g). c) results) = 6)"
proof -
  have h1: "[2, 3] \<noteq> ([] :: int list)" by simp
  have h2: "\<forall>f \<in> set [2, 3 :: int]. 1 \<le> f" by simp
  show ?thesis using process_dice_counts_total [OF h1 h2] h1 h2 by simp
qed

text \<open>
  C3. For face counts that are all at least 1, the table is strictly ascending by sum, so
  no sum appears twice, and its sums are exactly those that at least one outcome achieves.
\<close>

theorem process_dice_sorted_sums:
  assumes "dice_faces \<noteq> []" and "\<forall>f \<in> set dice_faces. 1 \<le> f"
  shows "\<exists>results T. process_dice dice_faces = Inr (results, T) \<and>
           sorted_wrt (<) (map fst results) \<and>
           set (map fst results) = {s. \<exists>roll \<in> set (generate_all_rolls dice_faces). sum_list roll = s}"
proof -
  define S where "S = sum_multiset dice_faces"
  have pd: "process_dice dice_faces = Inr (fst (table_of S), snd (table_of S))"
    using assms(2) by (simp add: process_dice_table S_def)
  have "sorted_wrt (<) (map fst (fst (table_of S)))"
    by (simp add: table_of_keys)
  moreover have "set (map fst (fst (table_of S)))
                 = {s. \<exists>roll \<in> set (generate_all_rolls dice_faces). sum_list roll = s}"
    by (auto simp: table_of_keys S_def sum_multiset_def)
  ultimately show ?thesis using pd by blast
qed

theorem process_dice_sorted_sums_witness:
  "[2, 3] \<noteq> ([] :: int list) \<and> (1 :: int) \<le> 2 \<and> (1 :: int) \<le> 3 \<and>
   (\<exists>results T. process_dice [2, 3] = Inr (results, T) \<and>
      sorted_wrt (<) (map fst results) \<and>
      set (map fst results) = {s. \<exists>roll \<in> set (generate_all_rolls [2, 3]). sum_list roll = s})"
proof -
  have h1: "[2, 3] \<noteq> ([] :: int list)" by simp
  have h2: "\<forall>f \<in> set [2, 3 :: int]. 1 \<le> f" by simp
  have c: "\<exists>results T. process_dice [2, 3] = Inr (results, T) \<and>
      sorted_wrt (<) (map fst results) \<and>
      set (map fst results) = {s. \<exists>roll \<in> set (generate_all_rolls [2, 3]). sum_list roll = s}"
    by (rule process_dice_sorted_sums [OF h1 h2])
  show ?thesis
    apply (intro conjI)
       apply simp
      apply simp
     apply simp
    apply (rule c)
    done
qed

text \<open>
  C7. For face counts that are all at least 1, \<open>process_dice\<close> returns the same table
  (sums, probabilities, counts and graph tokens, in the same order) and the same total on
  every permutation of the list.
\<close>

theorem process_dice_permutation:
  assumes "dice_faces \<noteq> []" and "\<forall>f \<in> set dice_faces. 1 \<le> f"
    and "mset permuted = mset dice_faces"
  shows "process_dice permuted = process_dice dice_faces \<and>
         (\<exists>results T. process_dice dice_faces = Inr (results, T))"
proof -
  have "\<forall>f \<in> set permuted. 1 \<le> f"
    using assms(2,3) by (metis set_mset_mset)
  then have "process_dice permuted = Inr (table_of (sum_multiset permuted))"
    by (rule process_dice_table)
  moreover have "sum_multiset permuted = sum_multiset dice_faces"
    using assms(3) by (rule sum_multiset_permutation)
  moreover have "process_dice dice_faces = Inr (table_of (sum_multiset dice_faces))"
    using assms(2) by (rule process_dice_table)
  ultimately show ?thesis by (metis prod.collapse)
qed

theorem process_dice_permutation_witness:
  "[2, 3] \<noteq> ([] :: int list) \<and> (1 :: int) \<le> 2 \<and> (1 :: int) \<le> 3 \<and>
   mset [3, 2] = mset [2, 3 :: int] \<and>
   process_dice [3, 2] = process_dice [2, 3] \<and>
   (\<exists>results T. process_dice [2, 3] = Inr (results, T))"
proof -
  have h1: "[2, 3] \<noteq> ([] :: int list)" by simp
  have h2: "\<forall>f \<in> set [2, 3 :: int]. 1 \<le> f" by simp
  have h3: "mset [3, 2] = mset [2, 3 :: int]" by simp
  have c: "process_dice [3, 2] = process_dice [2, 3] \<and>
      (\<exists>results T. process_dice [2, 3] = Inr (results, T))"
    by (rule process_dice_permutation [OF h1 h2 h3])
  show ?thesis using c h3 by simp
qed

text \<open>
  C9. For \<open>n\<close> face counts that are all at least 1, the sums of the table are all the
  integers from \<open>n\<close> to the sum of the face counts, without a gap, so the table has
  exactly \<open>\<Sum>F\<^sub>i - n + 1\<close> entries.
\<close>

theorem process_dice_no_gaps:
  assumes "dice_faces \<noteq> []" and "\<forall>f \<in> set dice_faces. 1 \<le> f"
  shows "\<exists>results T. process_dice dice_faces = Inr (results, T) \<and>
           map fst results = [int (length dice_faces) .. sum_list dice_faces] \<and>
           int (length results) = sum_list dice_faces - int (length dice_faces) + 1"
proof -
  define S where "S = sum_multiset dice_faces"
  have pd: "process_dice dice_faces = Inr (fst (table_of S), snd (table_of S))"
    using assms(2) by (simp add: process_dice_table S_def)
  have keys: "map fst (fst (table_of S)) = [int (length dice_faces) .. sum_list dice_faces]"
    using assms(2) by (simp add: table_of_keys S_def set_sum_multiset sorted_list_of_interval)
  have "length (fst (table_of S)) = length [int (length dice_faces) .. sum_list dice_faces]"
    using keys by (metis length_map)
  then have "int (length (fst (table_of S))) = sum_list dice_faces - int (length dice_faces) + 1"
    using length_le_sum_list [OF assms(2)] by simp
  with pd keys show ?thesis by blast
qed

theorem process_dice_no_gaps_witness:
  "[2, 3] \<noteq> ([] :: int list) \<and> (1 :: int) \<le> 2 \<and> (1 :: int) \<le> 3 \<and>
   (\<exists>results T. process_dice [2, 3] = Inr (results, T) \<and>
      map fst results = [2, 3, 4, 5] \<and> int (length results) = 4)"
proof -
  have h1: "[2, 3] \<noteq> ([] :: int list)" by simp
  have h2: "\<forall>f \<in> set [2, 3 :: int]. 1 \<le> f" by simp
  have "[2 .. 5 :: int] = [2, 3, 4, 5]" by (simp add: upto_rec1)
  then show ?thesis using process_dice_no_gaps [OF h1 h2] h1 h2 by simp
qed

subsection \<open>Die tokens\<close>






















subsection \<open>The command\<close>

lemma parse_die_positive: "parse_die arg = Inr v \<Longrightarrow> 1 \<le> v"
  by (auto simp: parse_die_def split: option.splits if_splits)

lemma parse_dice_faces:
  "parse_dice dice = Inr fs \<Longrightarrow> length fs = length dice \<and> (\<forall>f \<in> set fs. 1 \<le> f)"
proof (induction dice arbitrary: fs)
  case Nil
  then show ?case by simp
next
  case (Cons arg rest)
  from Cons.prems obtain v vs where v: "parse_die arg = Inr v" "parse_dice rest = Inr vs" "fs = v # vs"
    by (auto split: sum.splits)
  with Cons.IH [of vs] parse_die_positive [of arg v] show ?case by simp
qed

lemma foldl_max_ge:
  fixes a :: int
  shows "a \<le> foldl max a xs" and "x \<in> set xs \<Longrightarrow> x \<le> foldl max a xs"
proof -
  have "foldl max a xs = fold max xs a" by (simp add: foldl_conv_fold max_flip)
  also have "\<dots> = Max (set (a # xs))" by (rule Max.set_eq_fold [symmetric])
  finally have m: "foldl max a xs = Max (set (a # xs))" .
  show "a \<le> foldl max a xs" unfolding m by (rule Max_ge) simp_all
  show "x \<in> set xs \<Longrightarrow> x \<le> foldl max a xs" unfolding m by (rule Max_ge) simp_all
qed

lemma get_graph_line_ok:
  assumes "0 \<le> c" "c \<le> m"
  shows "\<exists>g. get_graph_line c m = Inr g"
proof (cases "50 < m")
  case True
  then show ?thesis using assms by (simp add: get_graph_line_scaled)
next
  case False
  then show ?thesis by (simp add: get_graph_line_small)
qed

lemma print_graph_rows_ok:
  assumes "\<forall>row \<in> set rows. 0 \<le> fst (snd (snd row)) \<and> fst (snd (snd row)) \<le> M"
  shows "\<exists>rest. print_graph_rows L M rows graph = Inr (graph @ rest)"
  using assms
proof (induction rows arbitrary: graph)
  case Nil
  show ?case by simp
next
  case (Cons row rows)
  obtain s p occ g where row: "row = (s, p, occ, g)" by (cases row) auto
  have "0 \<le> occ" "occ \<le> M" using Cons.prems by (simp_all add: row)
  then obtain bar where bar: "get_graph_line occ M = Inr bar"
    using get_graph_line_ok by blast
  have "\<forall>row \<in> set rows. 0 \<le> fst (snd (snd row)) \<and> fst (snd (snd row)) \<le> M"
    using Cons.prems by simp
  from Cons.IH [OF this] obtain rest where
    "print_graph_rows L M rows
       (graph @ [CHR 0x0A] @ str_repeat '' '' (max (L - int (length (str_of_int s))) (4 - int (length (str_of_int s))))
          @ str_of_int s @ '' | '' @ bar @ '' '' @ str_of_int occ)
     = Inr ((graph @ [CHR 0x0A] @ str_repeat '' '' (max (L - int (length (str_of_int s))) (4 - int (length (str_of_int s))))
          @ str_of_int s @ '' | '' @ bar @ '' '' @ str_of_int occ) @ rest)"
    by blast
  then show ?case by (simp add: row bar Let_def)
qed

lemma print_graph_ok:
  assumes "df \<noteq> []" and "\<forall>row \<in> set df. 0 \<le> fst (snd (snd row))"
  shows "\<exists>rest. print_graph df = Inr [Line (''Sums '' @ rest)]"
proof -
  obtain row rows where df: "df = row # rows" using assms(1) by (cases df) auto
  define M where "M = foldl max (fst (snd (snd row))) (map (\<lambda>r. fst (snd (snd r))) rows)"
  have "\<forall>r \<in> set df. 0 \<le> fst (snd (snd r)) \<and> fst (snd (snd r)) \<le> M"
  proof
    fix r assume r: "r \<in> set df"
    then have "fst (snd (snd r)) = fst (snd (snd row)) \<or> fst (snd (snd r)) \<in> set (map (\<lambda>r. fst (snd (snd r))) rows)"
      by (auto simp: df)
    then have "fst (snd (snd r)) \<le> M"
      unfolding M_def using foldl_max_ge by metis
    with assms(2) r show "0 \<le> fst (snd (snd r)) \<and> fst (snd (snd r)) \<le> M" by simp
  qed
  from print_graph_rows_ok [OF this] obtain rest where
    "print_graph_rows (int (length (str_of_int (foldl max (fst row) (map fst rows))))) M df
       (''Sums '' @ str_repeat '' '' (int (length (str_of_int (foldl max (fst row) (map fst rows)))) - 5) @ ''| Graph'')
     = Inr ((''Sums '' @ str_repeat '' '' (int (length (str_of_int (foldl max (fst row) (map fst rows)))) - 5) @ ''| Graph'') @ rest)"
    by blast
  then have "print_graph df =
      Inr [Line (''Sums '' @ (str_repeat '' '' (int (length (str_of_int (foldl max (fst row) (map fst rows)))) - 5) @ ''| Graph'' @ rest))]"
    unfolding print_graph_def df M_def by (simp add: Let_def)
  then show ?thesis by blast
qed

lemma render_ok:
  assumes "df \<noteq> []" and "\<forall>row \<in> set df. 0 \<le> fst (snd (snd row))"
  shows "\<exists>shown. render show_prob show_occurrences show_graph df = Inr shown \<and>
           \<not> list_ex is_total_line shown \<and>
           (\<not> show_prob \<and> \<not> show_occurrences \<and> \<not> show_graph \<longrightarrow> shown = [])"
proof -
  obtain rest where g: "print_graph df = Inr [Line (''Sums '' @ rest)]"
    using print_graph_ok [OF assms] by blast
  show ?thesis by (simp add: render_def g)
qed

lemma table_rows:
  assumes "\<forall>f \<in> set fs. 1 \<le> f"
  shows "fst (table_of (sum_multiset fs)) \<noteq> []"
    and "\<forall>row \<in> set (fst (table_of (sum_multiset fs))). 0 \<le> fst (snd (snd row))"
proof -
  have "set_mset (sum_multiset fs) \<noteq> {}"
    using set_sum_multiset [OF assms] length_le_sum_list [OF assms] by simp
  then have "sorted_list_of_set (set_mset (sum_multiset fs)) \<noteq> []"
    by (metis finite_set_mset set_empty sorted_list_of_set.set_sorted_key_list_of_set)
  then show "fst (table_of (sum_multiset fs)) \<noteq> []" by (simp add: table_of_def)
  show "\<forall>row \<in> set (fst (table_of (sum_multiset fs))). 0 \<le> fst (snd (snd row))"
    by (auto simp: table_of_def entry_of_def Let_def)
qed

lemma run_dice_valid:
  assumes "dice \<noteq> []" and "parse_dice dice = Inr fs"
  shows "\<exists>shown.
           \<not> list_ex is_total_line shown \<and>
           (\<not> show_prob \<and> \<not> show_occurrences \<and> \<not> show_graph \<longrightarrow> shown = []) \<and>
           run_dice randbelow (show_prob, show_occurrences, show_graph, do_roll, False) dice =
             (case roll_part randbelow do_roll fs of
                Inl e \<Rightarrow>
                  ([Line []] @ shown
                     @ total_part show_prob show_occurrences show_graph do_roll (prod_list fs),
                   Raise e)
              | Inr rolled \<Rightarrow>
                  ([Line []] @ shown
                     @ total_part show_prob show_occurrences show_graph do_roll (prod_list fs)
                     @ rolled,
                   Return ()))"
proof -
  have faces: "\<forall>f \<in> set fs. 1 \<le> f" using parse_dice_faces [OF assms(2)] by simp
  have pd: "process_dice fs = Inr (fst (table_of (sum_multiset fs)), prod_list fs)"
    using process_dice_table [OF faces] size_sum_multiset [OF faces] by (simp add: table_of_def)
  obtain shown where shown:
    "render show_prob show_occurrences show_graph (fst (table_of (sum_multiset fs))) = Inr shown"
    "\<not> list_ex is_total_line shown"
    "\<not> show_prob \<and> \<not> show_occurrences \<and> \<not> show_graph \<longrightarrow> shown = []"
    using render_ok [OF table_rows [OF faces]] by blast
  have "run_dice randbelow (show_prob, show_occurrences, show_graph, do_roll, False) dice =
             (case roll_part randbelow do_roll fs of
                Inl e \<Rightarrow>
                  ([Line []] @ shown
                     @ total_part show_prob show_occurrences show_graph do_roll (prod_list fs),
                   Raise e)
              | Inr rolled \<Rightarrow>
                  ([Line []] @ shown
                     @ total_part show_prob show_occurrences show_graph do_roll (prod_list fs)
                     @ rolled,
                   Return ()))"
    using assms(1) by (simp add: assms(2) pd shown(1))
  with shown(2,3) show ?thesis by blast
qed

lemma DiceOdds_valid:
  assumes "parse_args args = (out1, Return (dice, flags))"
    and "process_flags flags = (out2, Return fv)"
    and "dice \<noteq> []"
  shows "DiceOdds randbelow args = (fst (run_dice randbelow fv dice), snd (run_dice randbelow fv dice))
         \<or> snd (snd (snd (snd fv)))"
proof (cases "snd (snd (snd (snd fv)))")
  case True
  then show ?thesis by simp
next
  case False
  have o1: "out1 = []" using assms(1) by (simp add: parse_args_def parse_args_loop_filter)
  have "args \<noteq> []" using assms(1,3) by (auto simp: parse_args_def)
  obtain sp so sg dr sh where fv: "fv = (sp, so, sg, dr, sh)" by (cases fv) auto
  have "\<not> sh" using False by (simp add: fv)
  then have o2: "out2 = []"
    using assms(2) by (auto simp: process_flags_def fv Let_def split: list.splits if_splits)
  show ?thesis
    using \<open>args \<noteq> []\<close> by (simp add: DiceOdds_def assms(1,2) o1 o2 split: prod.splits)
qed

lemma roll_part_no_total:
  "roll_part randbelow do_roll fs = Inr rolled \<Longrightarrow> \<not> list_ex is_total_line rolled"
  by (auto simp: roll_part_def split: if_splits sum.splits)

lemma total_part_line:
  "list_ex is_total_line (total_part sp so sg dr T) \<longleftrightarrow> (\<not> dr \<or> sg \<or> so \<or> sp)"
  by (simp add: total_part_def)

lemma total_part_member:
  "\<not> dr \<or> sg \<or> so \<or> sp \<Longrightarrow>
   Line (''Total combinations: '' @ str_of_int T) \<in> set (total_part sp so sg dr T)"
  by (simp add: total_part_def)

lemma rand_choice_member:
  assumes "\<forall>n. 0 < n \<longrightarrow> randbelow n < n" and "xs \<noteq> []"
  shows "\<exists>x \<in> set xs. rand_choice randbelow xs = Inr x"
proof -
  have "randbelow (length xs) < length xs" using assms by simp
  then show ?thesis using assms(2) by (simp add: rand_choice_def)
qed

lemma args_d4_r: "parse_args [''d4'', ''-r''] = ([], Return ([''d4''], [''-r'']))"
  by code_simp

lemma args_d4_p: "parse_args [''d4'', ''-p''] = ([], Return ([''d4''], [''-p'']))"
  by code_simp

lemma flags_r: "process_flags [''-r''] = ([], Return (False, False, False, True, False))"
  by code_simp

lemma flags_p: "process_flags [''-p''] = ([], Return (True, False, False, False, False))"
  by code_simp

lemma dice_d4: "parse_dice [''d4''] = Inr [4]"
  by code_simp

lemma str_of_int_4: "str_of_int 4 = ''4''"
  by code_simp

text \<open>
  C6. In an invocation whose flags are all recognised and do not ask for help, with at least
  one die token and every die token well formed, a line beginning \<open>Total combinations: \<close>
  is printed if and only if no roll was requested or one of probability, occurrences and
  graph was; when it is printed it carries the product of the face counts. So an
  invocation that only rolls prints no such line.
\<close>

theorem total_combinations_line:
  assumes "parse_args args = (out1, Return (dice, flags))"
    and "process_flags flags = (out2, Return (show_prob, show_occurrences, show_graph, do_roll, False))"
    and "dice \<noteq> []"
    and "parse_dice dice = Inr dice_faces"
  shows "(list_ex is_total_line (fst (DiceOdds randbelow args))
            \<longleftrightarrow> (\<not> do_roll \<or> show_prob \<or> show_occurrences \<or> show_graph)) \<and>
         (\<not> do_roll \<or> show_prob \<or> show_occurrences \<or> show_graph \<longrightarrow>
            Line (''Total combinations: '' @ str_of_int (prod_list dice_faces))
              \<in> set (fst (DiceOdds randbelow args)))"
proof -
  have D: "DiceOdds randbelow args =
             run_dice randbelow (show_prob, show_occurrences, show_graph, do_roll, False) dice"
    using DiceOdds_valid [OF assms(1,2,3), of randbelow] by simp
  obtain shown where shown: "\<not> list_ex is_total_line shown"
    and R: "run_dice randbelow (show_prob, show_occurrences, show_graph, do_roll, False) dice =
             (case roll_part randbelow do_roll dice_faces of
                Inl e \<Rightarrow>
                  ([Line []] @ shown
                     @ total_part show_prob show_occurrences show_graph do_roll (prod_list dice_faces),
                   Raise e)
              | Inr rolled \<Rightarrow>
                  ([Line []] @ shown
                     @ total_part show_prob show_occurrences show_graph do_roll (prod_list dice_faces)
                     @ rolled,
                   Return ()))"
    using run_dice_valid [OF assms(3,4)] by blast
  show ?thesis
  proof (cases "roll_part randbelow do_roll dice_faces")
    case (Inl e)
    then have out: "fst (DiceOdds randbelow args) = [Line []] @ shown
         @ total_part show_prob show_occurrences show_graph do_roll (prod_list dice_faces)"
      by (simp only: D R sum.case fst_conv)
    show ?thesis
      unfolding out using shown total_part_member [of do_roll show_graph show_occurrences show_prob]
      by (auto simp: total_part_line)
  next
    case (Inr rolled)
    then have out: "fst (DiceOdds randbelow args) = [Line []] @ shown
         @ total_part show_prob show_occurrences show_graph do_roll (prod_list dice_faces) @ rolled"
      by (simp only: D R sum.case fst_conv)
    have "\<not> list_ex is_total_line rolled" using Inr by (rule roll_part_no_total)
    then show ?thesis
      unfolding out using shown total_part_member [of do_roll show_graph show_occurrences show_prob]
      by (auto simp: total_part_line)
  qed
qed

theorem total_combinations_line_witness:
  "\<not> list_ex is_total_line (fst (DiceOdds (\<lambda>n. 0) [''d4'', ''-r''])) \<and>
   Line ''Total combinations: 4'' \<in> set (fst (DiceOdds (\<lambda>n. 0) [''d4'', ''-p'']))"
proof -
  have ne: "[''d4''] \<noteq> []" by simp
  have "\<not> list_ex is_total_line (fst (DiceOdds (\<lambda>n. 0) [''d4'', ''-r'']))"
    using total_combinations_line [OF args_d4_r flags_r ne dice_d4, of "\<lambda>n. 0"] by simp
  moreover have "Line ''Total combinations: 4'' \<in> set (fst (DiceOdds (\<lambda>n. 0) [''d4'', ''-p'']))"
    using total_combinations_line [OF args_d4_p flags_p ne dice_d4, of "\<lambda>n. 0"]
    by (simp add: str_of_int_4)
  ultimately show ?thesis by simp
qed

text \<open>
  C8. In such an invocation that requests a roll, whatever index below the length the
  random source picks, the command ends normally and its last printed line but one is
  \<open>Your Roll is: R\<close>, where \<open>R\<close> is the sum of one tuple of the outcome space, so
  \<open>n \<le> R \<le> \<Sum>F\<^sub>i\<close>; when nothing else was requested the output is just a blank line,
  that line and a blank line. For a single \<open>d4\<close> this gives \<open>1 \<le> R \<le> 4\<close>.
\<close>

theorem roll_in_range:
  assumes "parse_args args = (out1, Return (dice, flags))"
    and "process_flags flags = (out2, Return (show_prob, show_occurrences, show_graph, True, False))"
    and "dice \<noteq> []"
    and "parse_dice dice = Inr dice_faces"
    and "\<forall>n. 0 < n \<longrightarrow> randbelow n < n"
  shows "\<exists>outcome before.
           outcome \<in> set (generate_all_rolls dice_faces) \<and>
           int (length dice_faces) \<le> sum_list outcome \<and>
           sum_list outcome \<le> sum_list dice_faces \<and>
           DiceOdds randbelow args =
             (before @ [Line (''Your Roll is: '' @ str_of_int (sum_list outcome)), Line []], Return ()) \<and>
           (\<not> show_prob \<and> \<not> show_occurrences \<and> \<not> show_graph \<longrightarrow> before = [Line []])"
proof -
  define dr where "dr = True"
  have faces: "\<forall>f \<in> set dice_faces. 1 \<le> f" using parse_dice_faces [OF assms(4)] by simp
  have pf: "process_flags flags = (out2, Return (show_prob, show_occurrences, show_graph, dr, False))"
    using assms(2) by (simp only: dr_def)
  have D: "DiceOdds randbelow args =
             run_dice randbelow (show_prob, show_occurrences, show_graph, dr, False) dice"
    using DiceOdds_valid [OF assms(1) pf assms(3), of randbelow] by simp
  obtain outcome where outcome: "outcome \<in> set (generate_all_rolls dice_faces)"
    and choice: "rand_choice randbelow (generate_all_rolls dice_faces) = Inr outcome"
    using rand_choice_member [OF assms(5) rolls_nonempty [OF faces]] by blast
  have rp: "roll_part randbelow dr dice_faces
            = Inr [Line (''Your Roll is: '' @ str_of_int (sum_list outcome)), Line []]"
    by (simp add: roll_part_def choice dr_def)
  have "\<exists>shown.
           \<not> list_ex is_total_line shown \<and>
           (\<not> show_prob \<and> \<not> show_occurrences \<and> \<not> show_graph \<longrightarrow> shown = []) \<and>
           run_dice randbelow (show_prob, show_occurrences, show_graph, dr, False) dice =
             (case roll_part randbelow dr dice_faces of
                Inl e \<Rightarrow>
                  ([Line []] @ shown
                     @ total_part show_prob show_occurrences show_graph dr (prod_list dice_faces),
                   Raise e)
              | Inr rolled \<Rightarrow>
                  ([Line []] @ shown
                     @ total_part show_prob show_occurrences show_graph dr (prod_list dice_faces)
                     @ rolled,
                   Return ()))"
    by (rule run_dice_valid [OF assms(3,4)])
  then obtain shown where all:
          "\<not> list_ex is_total_line shown \<and>
           (\<not> show_prob \<and> \<not> show_occurrences \<and> \<not> show_graph \<longrightarrow> shown = []) \<and>
           run_dice randbelow (show_prob, show_occurrences, show_graph, dr, False) dice =
             (case roll_part randbelow dr dice_faces of
                Inl e \<Rightarrow>
                  ([Line []] @ shown
                     @ total_part show_prob show_occurrences show_graph dr (prod_list dice_faces),
                   Raise e)
              | Inr rolled \<Rightarrow>
                  ([Line []] @ shown
                     @ total_part show_prob show_occurrences show_graph dr (prod_list dice_faces)
                     @ rolled,
                   Return ()))"
    by (rule exE)
  note shown = all [THEN conjunct2, THEN conjunct1]
  note R = all [THEN conjunct2, THEN conjunct2]
  define before where "before = [Line []] @ shown
      @ total_part show_prob show_occurrences show_graph dr (prod_list dice_faces)"
  have out: "DiceOdds randbelow args =
      (before @ [Line (''Your Roll is: '' @ str_of_int (sum_list outcome)), Line []], Return ())"
    by (simp only: D R rp sum.case before_def append_assoc)
  have "sum_list outcome \<in> sum_list ` set (generate_all_rolls dice_faces)"
    using outcome by (rule imageI)
  then have range: "int (length dice_faces) \<le> sum_list outcome" "sum_list outcome \<le> sum_list dice_faces"
    unfolding set_sums [OF faces] by simp_all
  have only: "\<not> show_prob \<and> \<not> show_occurrences \<and> \<not> show_graph \<longrightarrow> before = [Line []]"
    using shown by (simp add: before_def total_part_def dr_def)
  show ?thesis
    apply (rule exI [of _ outcome])
    apply (rule exI [of _ before])
    apply (intro conjI)
        apply (rule outcome)
       apply (rule range(1))
      apply (rule range(2))
     apply (rule out)
    apply (rule only)
    done
qed

theorem roll_in_range_witness:
  "\<exists>outcome.
     outcome \<in> set (generate_all_rolls [4]) \<and> 1 \<le> sum_list outcome \<and> sum_list outcome \<le> 4 \<and>
     DiceOdds (\<lambda>n. n - 1) [''d4'', ''-r''] =
       ([Line [], Line (''Your Roll is: '' @ str_of_int (sum_list outcome)), Line []], Return ())"
proof -
  have ne: "[''d4''] \<noteq> []" by simp
  have rnd: "\<forall>n. 0 < n \<longrightarrow> (\<lambda>n. n - 1) n < (n :: nat)" by simp
  have "\<exists>outcome before.
           outcome \<in> set (generate_all_rolls [4]) \<and>
           int (length [4 :: int]) \<le> sum_list outcome \<and>
           sum_list outcome \<le> sum_list [4] \<and>
           DiceOdds (\<lambda>n. n - 1) [''d4'', ''-r''] =
             (before @ [Line (''Your Roll is: '' @ str_of_int (sum_list outcome)), Line []], Return ()) \<and>
           (\<not> False \<and> \<not> False \<and> \<not> False \<longrightarrow> before = [Line []])"
    by (rule roll_in_range [OF args_d4_r flags_r ne dice_d4 rnd])
  then obtain outcome before where h:
          "outcome \<in> set (generate_all_rolls [4]) \<and>
           int (length [4 :: int]) \<le> sum_list outcome \<and>
           sum_list outcome \<le> sum_list [4] \<and>
           DiceOdds (\<lambda>n. n - 1) [''d4'', ''-r''] =
             (before @ [Line (''Your Roll is: '' @ str_of_int (sum_list outcome)), Line []], Return ()) \<and>
           (\<not> False \<and> \<not> False \<and> \<not> False \<longrightarrow> before = [Line []])"
    by (elim exE)
  then have b: "before = [Line []]" by simp
  show ?thesis
    apply (rule exI [of _ outcome])
    using h unfolding b by simp
qed

end
